theory Spec2Isabelle
  imports Main "HOL-Library.AList"
begin

section \<open>The data model of TweetStore\<close>

text \<open>
  Post objects are JavaScript objects shared by reference between the primary collection
  \<open>settings.posts\<close>, the three index maps and the caller. An object is a reference
  (\<open>ref\<close>) into an explicit object store (\<open>heap\<close>); arrays and maps hold references, so
  that a counter written through \<open>postsById\<close> is seen through \<open>settings.posts\<close> as well.
\<close>

type_synonym ref = nat

text \<open>
  Modelled from the spec: the declaration of \<open>TweetWidgetPost\<close> (module \<open>./types\<close>) is
  not among the sources. The fields are the ones the store reads or writes and that the
  spec's data model lists: \<open>id\<close> (here \<open>id_post\<close>, since \<open>id\<close> is the identity function
  of HOL), the optional \<open>threadId\<close> and \<open>quoteId\<close>, the optional counters \<open>replyCount\<close>
  and \<open>retweet\<close>, the timestamp \<open>updated\<close>, and one field \<open>content\<close> standing for the
  opaque payload. \<open>None\<close> is an absent (\<open>undefined\<close> or \<open>null\<close>) field. Counters and
  timestamps are integers.
\<close>

record TweetWidgetPost =
  id_post :: string
  threadId :: "string option"
  quoteId :: "string option"
  replyCount :: "int option"
  retweet :: "int option"
  updated :: int
  content :: string

text \<open>
  \<open>Partial<Omit<TweetWidgetPost, 'id'>>\<close>: every field but \<open>id\<close>, each one present or
  not. The outer \<open>option\<close> says whether the key is present; \<open>Object.assign\<close> copies every
  present key, also one whose value is \<open>undefined\<close>.
\<close>

record PostUpdates =
  u_threadId :: "string option option"
  u_quoteId :: "string option option"
  u_replyCount :: "int option option"
  u_retweet :: "int option option"
  u_updated :: "int option"
  u_content :: "string option"

text \<open>
  Modelled from the spec: the declaration of \<open>TweetWidgetSettings\<close> (module \<open>./types\<close>)
  is not among the sources; of the settings object the store reads and writes the array
  \<open>posts\<close> only, which is what the model keeps of it.

  The store: the object store, the array \<open>settings.posts\<close> and the three
  \<open>Map\<close>s. A JavaScript \<open>Map\<close> is finite and keeps insertion order: an association
  list, read with \<open>map_of\<close> and written with \<open>AList.update\<close> (which replaces the value
  of an existing key in place and appends a new key).
\<close>

record TweetStore =
  heap :: "ref \<Rightarrow> TweetWidgetPost"
  posts :: "ref list"
  postsById :: "(string \<times> ref) list"
  childrenByThreadId :: "(string \<times> ref list) list"
  quotesById :: "(string \<times> ref list) list"

section \<open>JavaScript idioms\<close>

text \<open>\<open>if (x)\<close> on an optional string: \<open>undefined\<close>, \<open>null\<close> and \<open>''\<close> are falsy.\<close>

definition truthy :: "string option \<Rightarrow> bool" where
  "truthy x = (case x of None \<Rightarrow> False | Some i \<Rightarrow> i \<noteq> [])"

text \<open>\<open>n || 0\<close> on an optional number.\<close>

definition orZero :: "int option \<Rightarrow> int" where
  "orZero n = (case n of None \<Rightarrow> 0 | Some k \<Rightarrow> k)"

text \<open>
  \<open>if (x) { const t = this.postsById.get(x); if (t) ... }\<close>: the object an optional
  identifier resolves to, if it is truthy and the map has it.
\<close>

definition resolve :: "(string \<times> ref) list \<Rightarrow> string option \<Rightarrow> ref option" where
  "resolve byId x = (if truthy x then (case x of None \<Rightarrow> None | Some i \<Rightarrow> map_of byId i) else None)"

section \<open>Rebuilding the indices\<close>

text \<open>
  \<open>if (!m.has(k)) m.set(k, []); m.get(k)!.push(p)\<close>
\<close>

definition pushTo :: "string \<Rightarrow> ref \<Rightarrow> (string \<times> ref list) list \<Rightarrow> (string \<times> ref list) list" where
  "pushTo k p m =
     (let m1 = (if map_of m k = None then AList.update k [] m else m)
      in case map_of m1 k of None \<Rightarrow> m1 | Some ps \<Rightarrow> AList.update k (ps @ [p]) m1)"

text \<open>The body of the loop of \<open>updateChildrenMap\<close>, on the pair \<open>(childMap, quoteMap)\<close>.\<close>

definition indexPost ::
  "(ref \<Rightarrow> TweetWidgetPost) \<Rightarrow> ref \<Rightarrow>
   (string \<times> ref list) list \<times> (string \<times> ref list) list \<Rightarrow>
   (string \<times> ref list) list \<times> (string \<times> ref list) list" where
  "indexPost h p maps =
     (let cm = (case threadId (h p) of
                  None \<Rightarrow> fst maps
                | Some t \<Rightarrow> if truthy (Some t) then pushTo t p (fst maps) else fst maps);
          qm = (case quoteId (h p) of
                  None \<Rightarrow> snd maps
                | Some q \<Rightarrow> if truthy (Some q) then pushTo q p (snd maps) else snd maps)
      in (cm, qm))"

definition updateChildrenMap :: "TweetStore \<Rightarrow> TweetStore" where
  "updateChildrenMap s =
     (let maps = fold (indexPost (heap s)) (posts s) ([], [])
      in s\<lparr>childrenByThreadId := fst maps, quotesById := snd maps\<rparr>)"

text \<open>\<open>new Map(posts.map(p => [p.id, p]))\<close>: a later entry with the same key wins.\<close>

definition buildById :: "(ref \<Rightarrow> TweetWidgetPost) \<Rightarrow> ref list \<Rightarrow> (string \<times> ref) list" where
  "buildById h ps = fold (\<lambda>p m. AList.update (id_post (h p)) p m) ps []"

definition updatePostsById :: "TweetStore \<Rightarrow> TweetStore" where
  "updatePostsById s = updateChildrenMap (s\<lparr>postsById := buildById (heap s) (posts s)\<rparr>)"

section \<open>Construction and accessors\<close>

text \<open>
  The constructor, from the object store and the array \<open>initialSettings.posts\<close>; the
  three maps start empty and are rebuilt at once.
\<close>

definition newTweetStore :: "(ref \<Rightarrow> TweetWidgetPost) \<Rightarrow> ref list \<Rightarrow> TweetStore" where
  "newTweetStore h ps =
     updatePostsById \<lparr>heap = h, posts = ps, postsById = [], childrenByThreadId = [], quotesById = []\<rparr>"

definition setAllSettings :: "TweetStore \<Rightarrow> ref list \<Rightarrow> TweetStore" where
  "setAllSettings s newPosts = updatePostsById (s\<lparr>posts := newPosts\<rparr>)"

definition getPostById :: "TweetStore \<Rightarrow> string \<Rightarrow> ref option" where
  "getPostById s postId = map_of (postsById s) postId"

definition getReplies :: "TweetStore \<Rightarrow> string \<Rightarrow> ref list" where
  "getReplies s parentId = (case map_of (childrenByThreadId s) parentId of None \<Rightarrow> [] | Some ps \<Rightarrow> ps)"

definition getQuotePosts :: "TweetStore \<Rightarrow> string \<Rightarrow> ref list" where
  "getQuotePosts s postId = (case map_of (quotesById s) postId of None \<Rightarrow> [] | Some ps \<Rightarrow> ps)"

section \<open>Mutations\<close>

text \<open>The counter updates of \<open>addPost\<close>; \<open>now\<close> is the value \<open>Date.now()\<close> returns.\<close>

definition incReply :: "int \<Rightarrow> TweetWidgetPost \<Rightarrow> TweetWidgetPost" where
  "incReply now p = p\<lparr>replyCount := Some (orZero (replyCount p) + 1), updated := now\<rparr>"

definition incRetweet :: "int \<Rightarrow> TweetWidgetPost \<Rightarrow> TweetWidgetPost" where
  "incRetweet now p = p\<lparr>retweet := Some (orZero (retweet p) + 1), updated := now\<rparr>"

text \<open>The counter updates of \<open>deletePost\<close> and \<open>deleteThread\<close>: \<open>Math.max(0, (c || 0) - 1)\<close>.\<close>

definition decReply :: "TweetWidgetPost \<Rightarrow> TweetWidgetPost" where
  "decReply p = p\<lparr>replyCount := Some (max 0 (orZero (replyCount p) - 1))\<rparr>"

definition decRetweet :: "TweetWidgetPost \<Rightarrow> TweetWidgetPost" where
  "decRetweet p = p\<lparr>retweet := Some (max 0 (orZero (retweet p) - 1))\<rparr>"

text \<open>Writing a field of the object a reference points to, if there is one.\<close>

definition modify ::
  "ref option \<Rightarrow> (TweetWidgetPost \<Rightarrow> TweetWidgetPost) \<Rightarrow> (ref \<Rightarrow> TweetWidgetPost) \<Rightarrow> ref \<Rightarrow> TweetWidgetPost" where
  "modify target f h = (case target of None \<Rightarrow> h | Some t \<Rightarrow> h(t := f (h t)))"

text \<open>
  \<open>addPost(post)\<close>. The post is the object \<open>post\<close> of the object store; \<open>now1\<close> and
  \<open>now2\<close> are the two readings of the clock. The lookups go through \<open>postsById\<close> as it
  was before the call: the map is rebuilt at the end only.
\<close>

definition addPost :: "TweetStore \<Rightarrow> ref \<Rightarrow> int \<Rightarrow> int \<Rightarrow> TweetStore" where
  "addPost s post now1 now2 =
     (let ps = post # posts s;
          h1 = modify (resolve (postsById s) (threadId (heap s post))) (incReply now1) (heap s);
          h2 = modify (resolve (postsById s) (quoteId (h1 post))) (incRetweet now2) h1
      in updatePostsById (s\<lparr>heap := h2, posts := ps\<rparr>))"

text \<open>\<open>Object.assign(post, updates)\<close>\<close>

definition assign :: "TweetWidgetPost \<Rightarrow> PostUpdates \<Rightarrow> TweetWidgetPost" where
  "assign p u =
     p\<lparr>threadId := (case u_threadId u of None \<Rightarrow> threadId p | Some v \<Rightarrow> v),
       quoteId := (case u_quoteId u of None \<Rightarrow> quoteId p | Some v \<Rightarrow> v),
       replyCount := (case u_replyCount u of None \<Rightarrow> replyCount p | Some v \<Rightarrow> v),
       retweet := (case u_retweet u of None \<Rightarrow> retweet p | Some v \<Rightarrow> v),
       updated := (case u_updated u of None \<Rightarrow> updated p | Some v \<Rightarrow> v),
       content := (case u_content u of None \<Rightarrow> content p | Some v \<Rightarrow> v)\<rparr>"

definition updatePost :: "TweetStore \<Rightarrow> string \<Rightarrow> PostUpdates \<Rightarrow> int \<Rightarrow> TweetStore" where
  "updatePost s postId updates now =
     (case map_of (postsById s) postId of
        None \<Rightarrow> s
      | Some post \<Rightarrow>
          updatePostsById (s\<lparr>heap := (heap s)(post := (assign (heap s post) updates)\<lparr>updated := now\<rparr>)\<rparr>))"

text \<open>
  \<open>post?.threadId\<close> and \<open>post?.quoteId\<close>: the field of the object, \<open>undefined\<close>
  when there is no object.
\<close>

definition threadIdOf :: "(ref \<Rightarrow> TweetWidgetPost) \<Rightarrow> ref option \<Rightarrow> string option" where
  "threadIdOf h post = (case post of None \<Rightarrow> None | Some p \<Rightarrow> threadId (h p))"

definition quoteIdOf :: "(ref \<Rightarrow> TweetWidgetPost) \<Rightarrow> ref option \<Rightarrow> string option" where
  "quoteIdOf h post = (case post of None \<Rightarrow> None | Some p \<Rightarrow> quoteId (h p))"

definition deletePost :: "TweetStore \<Rightarrow> string \<Rightarrow> TweetStore" where
  "deletePost s postId =
     (let post = map_of (postsById s) postId;
          h1 = modify (resolve (postsById s) (threadIdOf (heap s) post)) decReply (heap s);
          h2 = modify (resolve (postsById s) (quoteIdOf h1 post)) decRetweet h1
      in updatePostsById (s\<lparr>heap := h2, posts := filter (\<lambda>p. id_post (h2 p) \<noteq> postId) (posts s)\<rparr>))"

section \<open>Collecting a thread\<close>

text \<open>
  The inner loop of \<open>collectThreadIds\<close>, on the pair \<open>(ids, queue)\<close>. The \<open>Set\<close>
  \<open>ids\<close> keeps insertion order, which \<open>Array.from\<close> returns: a list without repetition,
  extended at its end.
\<close>

definition visitChild ::
  "(ref \<Rightarrow> TweetWidgetPost) \<Rightarrow> ref \<Rightarrow> string list \<times> string list \<Rightarrow> string list \<times> string list" where
  "visitChild h child st =
     (if id_post (h child) \<in> set (fst st) then st
      else (fst st @ [id_post (h child)], snd st @ [id_post (h child)]))"

text \<open>One turn of the \<open>while\<close> loop: \<open>queue.shift()\<close>, then the children of that id.\<close>

definition collectStep ::
  "(ref \<Rightarrow> TweetWidgetPost) \<Rightarrow> (string \<times> ref list) list \<Rightarrow>
   string list \<times> string list \<Rightarrow> string list \<times> string list" where
  "collectStep h childrenMap st =
     (case snd st of
        [] \<Rightarrow> st
      | currentId # rest \<Rightarrow>
          fold (visitChild h)
            (case map_of childrenMap currentId of None \<Rightarrow> [] | Some children \<Rightarrow> children)
            (fst st, rest))"

text \<open>
  Every identifier the traversal can ever hold: the root and the ids of the posts listed
  in the adjacency map. The number of them that are not yet in \<open>ids\<close>, plus the length
  of the queue, goes down by one at each turn of the loop.
\<close>

definition candidates ::
  "(ref \<Rightarrow> TweetWidgetPost) \<Rightarrow> (string \<times> ref list) list \<Rightarrow> string list" where
  "candidates h childrenMap = map (\<lambda>c. id_post (h c)) (concat (map snd childrenMap))"

definition variant ::
  "(ref \<Rightarrow> TweetWidgetPost) \<Rightarrow> (string \<times> ref list) list \<Rightarrow> string list \<times> string list \<Rightarrow> nat" where
  "variant h childrenMap st = card (set (candidates h childrenMap) - set (fst st)) + length (snd st)"

text \<open>
  The \<open>while (queue.length > 0)\<close> loop, returning \<open>Array.from(ids)\<close>. Its termination is
  proved below, once the variant is known to decrease.
\<close>

function collectLoop ::
  "(ref \<Rightarrow> TweetWidgetPost) \<Rightarrow> (string \<times> ref list) list \<Rightarrow> string list \<times> string list \<Rightarrow> string list" where
  "collectLoop h childrenMap st =
     (if snd st = [] then fst st else collectLoop h childrenMap (collectStep h childrenMap st))"
  by pat_completeness auto

definition collectThreadIds :: "TweetStore \<Rightarrow> string \<Rightarrow> string list" where
  "collectThreadIds s rootId = collectLoop (heap s) (childrenByThreadId s) ([rootId], [rootId])"

text \<open>The body of the \<open>for (const id of threadIds)\<close> loop of \<open>deleteThread\<close>.\<close>

definition unquote :: "(string \<times> ref) list \<Rightarrow> string \<Rightarrow> (ref \<Rightarrow> TweetWidgetPost) \<Rightarrow> ref \<Rightarrow> TweetWidgetPost" where
  "unquote byId i h = modify (resolve byId (quoteIdOf h (map_of byId i))) decRetweet h"

definition deleteThread :: "TweetStore \<Rightarrow> string \<Rightarrow> TweetStore" where
  "deleteThread s rootId =
     (let threadIds = collectThreadIds s rootId;
          rootPost = map_of (postsById s) rootId;
          h1 = modify (resolve (postsById s) (threadIdOf (heap s) rootPost)) decReply (heap s);
          h2 = fold (unquote (postsById s)) threadIds h1
      in updatePostsById
           (s\<lparr>heap := h2, posts := filter (\<lambda>p. id_post (h2 p) \<notin> set threadIds) (posts s)\<rparr>))"

section \<open>Sequences of calls\<close>

datatype call =
    AddPost ref int int
  | UpdatePost string PostUpdates int
  | DeletePost string
  | DeleteThread string
  | SetAllSettings "ref list"

fun perform :: "TweetStore \<Rightarrow> call \<Rightarrow> TweetStore" where
  "perform s (AddPost post now1 now2) = addPost s post now1 now2"
| "perform s (UpdatePost postId updates now) = updatePost s postId updates now"
| "perform s (DeletePost postId) = deletePost s postId"
| "perform s (DeleteThread rootId) = deleteThread s rootId"
| "perform s (SetAllSettings newPosts) = setAllSettings s newPosts"

definition run :: "TweetStore \<Rightarrow> call list \<Rightarrow> TweetStore" where
  "run s cs = fold (\<lambda>c t. perform t c) cs s"

section \<open>Notions the properties are stated with\<close>

text \<open>
  The indices are the ones a rebuild from the primary collection gives: rebuilding
  changes nothing. Every store the constructor or a call returns is in this state.
\<close>

definition consistent :: "TweetStore \<Rightarrow> bool" where
  "consistent s \<longleftrightarrow> updatePostsById s = s"

text \<open>No two entries of a collection carry the same id.\<close>

definition uniqueIds :: "(ref \<Rightarrow> TweetWidgetPost) \<Rightarrow> ref list \<Rightarrow> bool" where
  "uniqueIds h ps \<longleftrightarrow> distinct (map (\<lambda>p. id_post (h p)) ps)"

text \<open>
  The posts the rebuild files under an identifier: \<open>if (post.threadId)\<close> and
  \<open>if (post.quoteId)\<close> guard the two \<open>push\<close>es, so a falsy field files the post nowhere.
\<close>

definition repliesTo :: "(ref \<Rightarrow> TweetWidgetPost) \<Rightarrow> string \<Rightarrow> ref \<Rightarrow> bool" where
  "repliesTo h t p \<longleftrightarrow> truthy (threadId (h p)) \<and> threadId (h p) = Some t"

definition quotes :: "(ref \<Rightarrow> TweetWidgetPost) \<Rightarrow> string \<Rightarrow> ref \<Rightarrow> bool" where
  "quotes h q p \<longleftrightarrow> truthy (quoteId (h p)) \<and> quoteId (h p) = Some q"

text \<open>
  The edges of the adjacency index: from an identifier to the id of each post listed
  under it in \<open>childrenByThreadId\<close>.
\<close>

definition replyEdges :: "(ref \<Rightarrow> TweetWidgetPost) \<Rightarrow> (string \<times> ref list) list \<Rightarrow> (string \<times> string) set" where
  "replyEdges h childrenMap =
     {(a, b). \<exists>cs c. map_of childrenMap a = Some cs \<and> c \<in> set cs \<and> b = id_post (h c)}"

text \<open>
  The invariant of the \<open>while\<close> loop of \<open>collectThreadIds\<close>: the root is collected, the
  queue holds collected ids only, no id is collected twice, every collected id is reachable
  from the root, and the children of an id that has left the queue are collected.
\<close>

definition traversal ::
  "(ref \<Rightarrow> TweetWidgetPost) \<Rightarrow> (string \<times> ref list) list \<Rightarrow> string \<Rightarrow> string list \<times> string list \<Rightarrow> bool" where
  "traversal h cm root st \<longleftrightarrow>
     root \<in> set (fst st) \<and> set (snd st) \<subseteq> set (fst st) \<and> distinct (fst st) \<and>
     set (fst st) \<subseteq> {i. (root, i) \<in> (replyEdges h cm)\<^sup>*} \<and>
     (\<forall>x \<in> set (fst st) - set (snd st). \<forall>y. (x, y) \<in> replyEdges h cm \<longrightarrow> y \<in> set (fst st))"

text \<open>Every call of a sequence meets a condition in the state it is made in.\<close>

fun eachCall :: "(TweetStore \<Rightarrow> call \<Rightarrow> bool) \<Rightarrow> TweetStore \<Rightarrow> call list \<Rightarrow> bool" where
  "eachCall P s [] \<longleftrightarrow> True"
| "eachCall P s (c # cs) \<longleftrightarrow> P s c \<and> eachCall P (perform s c) cs"

text \<open>
  The contract of \<open>addPost\<close> and of \<open>setAllSettings\<close> on identifiers: a post that is
  added carries an id no post of the store has, and an adopted collection has unique ids.
\<close>

fun allowed :: "TweetStore \<Rightarrow> call \<Rightarrow> bool" where
  "allowed s (AddPost post now1 now2) \<longleftrightarrow>
     id_post (heap s post) \<notin> set (map (\<lambda>p. id_post (heap s p)) (posts s))"
| "allowed s (SetAllSettings newPosts) \<longleftrightarrow> uniqueIds (heap s) newPosts"
| "allowed s c \<longleftrightarrow> True"

text \<open>A counter is absent or at least 0.\<close>

definition nonNegative :: "TweetWidgetPost \<Rightarrow> bool" where
  "nonNegative p \<longleftrightarrow>
     (case replyCount p of None \<Rightarrow> True | Some n \<Rightarrow> 0 \<le> n) \<and>
     (case retweet p of None \<Rightarrow> True | Some n \<Rightarrow> 0 \<le> n)"

definition suppliesNonNegative :: "PostUpdates \<Rightarrow> bool" where
  "suppliesNonNegative u \<longleftrightarrow>
     (case u_replyCount u of Some (Some n) \<Rightarrow> 0 \<le> n | _ \<Rightarrow> True) \<and>
     (case u_retweet u of Some (Some n) \<Rightarrow> 0 \<le> n | _ \<Rightarrow> True)"

text \<open>
  The calls that hand the store no negative counter: one of \<open>addPost\<close>, \<open>updatePost\<close>,
  \<open>deletePost\<close> and \<open>deleteThread\<close>, where an added post and the fields of an update
  carry counters that are absent or at least 0.
\<close>

fun cautious :: "TweetStore \<Rightarrow> call \<Rightarrow> bool" where
  "cautious s (AddPost post now1 now2) \<longleftrightarrow> nonNegative (heap s post)"
| "cautious s (UpdatePost postId updates now) \<longleftrightarrow> suppliesNonNegative updates"
| "cautious s (DeletePost postId) \<longleftrightarrow> True"
| "cautious s (DeleteThread rootId) \<longleftrightarrow> True"
| "cautious s (SetAllSettings newPosts) \<longleftrightarrow> False"

text \<open>
  In \<open>deleteThread\<close>: the object the \<open>threadId\<close> of the root post resolves to, and the
  object whose \<open>retweet\<close> the turn of the loop for the identifier \<open>i\<close> lowers.
\<close>

definition grandparent :: "TweetStore \<Rightarrow> string \<Rightarrow> ref option" where
  "grandparent s rootId = resolve (postsById s) (threadIdOf (heap s) (getPostById s rootId))"

definition quoteTarget :: "(string \<times> ref) list \<Rightarrow> (ref \<Rightarrow> TweetWidgetPost) \<Rightarrow> string \<Rightarrow> ref option" where
  "quoteTarget byId h i = resolve byId (quoteIdOf h (map_of byId i))"

text \<open>
  The number of posts \<open>deleteThread(rootId)\<close> removes that quote the post \<open>T\<close>: the posts
  of the primary collection whose id is collected and whose \<open>quoteId\<close> is set and is the id
  of \<open>T\<close>.
\<close>

definition deletedQuoters :: "TweetStore \<Rightarrow> string \<Rightarrow> ref \<Rightarrow> nat" where
  "deletedQuoters s rootId T =
     length (filter (\<lambda>p. id_post (heap s p) \<in> set (collectThreadIds s rootId) \<and>
                          quotes (heap s) (id_post (heap s T)) p) (posts s))"

text \<open>
  The reply relation of a store is a forest: ids are unique (so a post has one parent at
  most) and the edges of the index of replies have no cycle.
\<close>

definition replyForest :: "TweetStore \<Rightarrow> bool" where
  "replyForest s \<longleftrightarrow>
     uniqueIds (heap s) (posts s) \<and> acyclic (replyEdges (heap s) (childrenByThreadId s))"

section \<open>Example stores\<close>

text \<open>A post with no field set.\<close>

definition blank :: TweetWidgetPost where
  "blank = \<lparr>id_post = [], threadId = None, quoteId = None, replyCount = None, retweet = None,
            updated = 0, content = []\<rparr>"

text \<open>
  An object store with a small thread: \<open>a\<close> replies to \<open>z\<close>, \<open>b\<close> replies to \<open>a\<close> and
  quotes \<open>t\<close>; further a reply \<open>c\<close> to \<open>z\<close>, a second object with the id \<open>a\<close>, a post
  \<open>e\<close> whose \<open>threadId\<close> is the empty string, and a post \<open>n\<close> with a negative
  \<open>replyCount\<close>.
\<close>

definition family :: "ref \<Rightarrow> TweetWidgetPost" where
  "family =
     (\<lambda>r. blank)
       (0 := blank\<lparr>id_post := ''z'', replyCount := Some 1\<rparr>,
        1 := blank\<lparr>id_post := ''a'', threadId := Some ''z'', replyCount := Some 1\<rparr>,
        2 := blank\<lparr>id_post := ''b'', threadId := Some ''a'', quoteId := Some ''t''\<rparr>,
        3 := blank\<lparr>id_post := ''t'', retweet := Some 1\<rparr>,
        4 := blank\<lparr>id_post := ''c'', threadId := Some ''z''\<rparr>,
        5 := blank\<lparr>id_post := ''a''\<rparr>,
        6 := blank\<lparr>id_post := ''e'', threadId := Some []\<rparr>,
        7 := blank\<lparr>id_post := ''n'', replyCount := Some (- 2)\<rparr>)"

definition familyStore :: TweetStore where
  "familyStore = newTweetStore family [2, 1, 0, 3]"

text \<open>
  Two posts \<open>p\<close> and \<open>o\<close> without replies, and a reply \<open>r\<close> to \<open>p\<close> that is not in the
  store yet.
\<close>

definition pals :: "ref \<Rightarrow> TweetWidgetPost" where
  "pals =
     (\<lambda>r. blank)
       (0 := blank\<lparr>id_post := ''p'', replyCount := Some 0\<rparr>,
        1 := blank\<lparr>id_post := ''o'', replyCount := Some 0\<rparr>,
        2 := blank\<lparr>id_post := ''r'', threadId := Some ''p''\<rparr>)"

text \<open>
  Updates: the empty object, \<open>{threadId: 'o'}\<close> and \<open>{replyCount: -1}\<close>.
\<close>

definition noUpdates :: PostUpdates where
  "noUpdates = \<lparr>u_threadId = None, u_quoteId = None, u_replyCount = None, u_retweet = None,
                u_updated = None, u_content = None\<rparr>"

definition moveUnderO :: PostUpdates where
  "moveUnderO = noUpdates\<lparr>u_threadId := Some (Some ''o'')\<rparr>"

definition negativeReplyCount :: PostUpdates where
  "negativeReplyCount = noUpdates\<lparr>u_replyCount := Some (Some (- 1))\<rparr>"

text \<open>
  The store of \<open>p\<close> and \<open>o\<close> after \<open>r\<close> was added under \<open>p\<close> and then moved under \<open>o\<close>
  by an update: \<open>o\<close> has the reply \<open>r\<close> and the \<open>replyCount\<close> 0.
\<close>

definition drifted :: TweetStore where
  "drifted = run (newTweetStore pals [1, 0]) [AddPost 2 5 6, UpdatePost ''r'' moveUnderO 9]"

text \<open>
  The thread \<open>z\<close>, \<open>a\<close> after the first of the calls \<open>addPost(b)\<close>, \<open>deleteThread('a')\<close>.
\<close>

definition grown :: TweetStore where
  "grown = run (newTweetStore family [1, 0]) (take 1 [AddPost 2 5 6, DeleteThread ''a''])"

text \<open>
  The example thread after \<open>deletePost('b')\<close>, \<open>deletePost('a')\<close> and \<open>addPost(c)\<close>.
\<close>

definition pruned :: TweetStore where
  "pruned = run (newTweetStore family [2, 1, 0, 3])
              (take 3 [DeletePost ''b'', DeletePost ''a'', AddPost 4 5 6])"

text \<open>A cyclic reply relation: \<open>a\<close> replies to \<open>b\<close> and \<open>b\<close> replies to \<open>a\<close>.\<close>

definition loopy :: "ref \<Rightarrow> TweetWidgetPost" where
  "loopy =
     (\<lambda>r. blank)
       (0 := blank\<lparr>id_post := ''a'', threadId := Some ''b''\<rparr>,
        1 := blank\<lparr>id_post := ''b'', threadId := Some ''a''\<rparr>)"

definition loopStore :: TweetStore where
  "loopStore = newTweetStore loopy [0, 1]"

text \<open>
  The example thread after a second post with the id \<open>a\<close> was added: the ids are no
  longer unique.
\<close>

definition doubled :: TweetStore where
  "doubled = addPost familyStore 5 7 8"

text \<open>The store of \<open>p\<close> and \<open>o\<close> after \<open>r\<close> was added under \<open>p\<close>.\<close>

definition replied :: TweetStore where
  "replied = addPost (newTweetStore pals [1, 0]) 2 5 6"

section \<open>Termination of the traversal\<close>

lemma visitChild_variant:
  assumes "id_post (h child) \<in> set (candidates h cm)"
  shows "variant h cm (visitChild h child st) = variant h cm st"
proof (cases "id_post (h child) \<in> set (fst st)")
  case True
  then show ?thesis by (simp add: visitChild_def)
next
  case False
  let ?c = "id_post (h child)"
  let ?R = "set (candidates h cm) - set (fst st)"
  have "?c \<in> ?R" using assms False by simp
  moreover have "finite ?R" by simp
  ultimately have "card (?R - {?c}) + 1 = card ?R"
    by (metis Suc_eq_plus1 card_Suc_Diff1)
  moreover have "set (candidates h cm) - set (fst st @ [?c]) = ?R - {?c}" by auto
  ultimately show ?thesis using False by (simp add: visitChild_def variant_def)
qed

lemma fold_visitChild_variant:
  "\<forall>c \<in> set cs. id_post (h c) \<in> set (candidates h cm) \<Longrightarrow>
   variant h cm (fold (visitChild h) cs st) = variant h cm st"
  by (induction cs arbitrary: st) (simp_all add: visitChild_variant)

lemma children_candidates:
  assumes "map_of cm k = Some cs" and "c \<in> set cs"
  shows "id_post (h c) \<in> set (candidates h cm)"
proof -
  have "(k, cs) \<in> set cm" using assms(1) by (rule map_of_SomeD)
  then show ?thesis using assms(2) by (force simp: candidates_def)
qed

lemma collectStep_variant:
  assumes "snd st \<noteq> []"
  shows "Suc (variant h cm (collectStep h cm st)) = variant h cm st"
proof -
  obtain cur rest where q: "snd st = cur # rest" using assms by (cases "snd st") auto
  let ?cs = "case map_of cm cur of None \<Rightarrow> [] | Some children \<Rightarrow> children"
  have "\<forall>c \<in> set ?cs. id_post (h c) \<in> set (candidates h cm)"
    by (cases "map_of cm cur") (auto intro: children_candidates)
  then have "variant h cm (fold (visitChild h) ?cs (fst st, rest)) = variant h cm (fst st, rest)"
    by (rule fold_visitChild_variant)
  then show ?thesis using q by (simp add: collectStep_def variant_def)
qed

termination collectLoop
proof (relation "measure (\<lambda>(h, cm, st). variant h cm st)")
  show "wf (measure (\<lambda>(h, cm, st). variant h cm st))" by simp
next
  fix h :: "ref \<Rightarrow> TweetWidgetPost" and childrenMap :: "(string \<times> ref list) list"
    and st :: "string list \<times> string list"
  assume "snd st \<noteq> []"
  then have "Suc (variant h childrenMap (collectStep h childrenMap st)) = variant h childrenMap st"
    by (rule collectStep_variant)
  then show "((h, childrenMap, collectStep h childrenMap st), (h, childrenMap, st))
      \<in> measure (\<lambda>(h, cm, st). variant h cm st)"
    by simp
qed

declare collectLoop.simps [simp del]

lemma collectLoop_funpow:
  "\<exists>n. n \<le> variant h cm st \<and> snd ((collectStep h cm ^^ n) st) = [] \<and>
       (\<forall>m < n. snd ((collectStep h cm ^^ m) st) \<noteq> []) \<and>
       collectLoop h cm st = fst ((collectStep h cm ^^ n) st)"
proof (induction h cm st rule: collectLoop.induct)
  case (1 h cm st)
  show ?case
  proof (cases "snd st = []")
    case True
    then have "snd ((collectStep h cm ^^ 0) st) = [] \<and> collectLoop h cm st = fst ((collectStep h cm ^^ 0) st)"
      by (simp add: collectLoop.simps)
    then show ?thesis by blast
  next
    case False
    from "1.IH" [OF False] obtain n where
      n: "n \<le> variant h cm (collectStep h cm st)"
         "snd ((collectStep h cm ^^ n) (collectStep h cm st)) = []"
         "\<forall>m < n. snd ((collectStep h cm ^^ m) (collectStep h cm st)) \<noteq> []"
         "collectLoop h cm (collectStep h cm st) = fst ((collectStep h cm ^^ n) (collectStep h cm st))"
      by blast
    have v: "Suc (variant h cm (collectStep h cm st)) = variant h cm st"
      using False by (rule collectStep_variant)
    have a: "Suc n \<le> variant h cm st" using n(1) v by simp
    have b: "snd ((collectStep h cm ^^ Suc n) st) = []" using n(2) by (simp add: funpow_swap1)
    have c: "collectLoop h cm st = fst ((collectStep h cm ^^ Suc n) st)"
      using n(4) False by (simp add: funpow_swap1 collectLoop.simps [of h cm st])
    have d: "\<forall>m < Suc n. snd ((collectStep h cm ^^ m) st) \<noteq> []"
    proof (intro allI impI)
      fix m assume m: "m < Suc n"
      show "snd ((collectStep h cm ^^ m) st) \<noteq> []"
      proof (cases m)
        case 0
        then show ?thesis using False by simp
      next
        case (Suc k)
        then have "k < n" using m by simp
        then show ?thesis using n(3) Suc by (simp add: funpow_swap1)
      qed
    qed
    show ?thesis using a b c d by blast
  qed
qed

section \<open>What the traversal collects\<close>

lemma fold_visitChild_new:
  "\<exists>new. fold (visitChild h) cs st = (fst st @ new, snd st @ new) \<and>
         set new = (\<lambda>c. id_post (h c)) ` set cs - set (fst st) \<and> distinct new"
proof (induction cs arbitrary: st)
  case Nil
  show ?case by simp
next
  case (Cons c cs)
  let ?i = "id_post (h c)"
  show ?case
  proof (cases "?i \<in> set (fst st)")
    case True
    then have "visitChild h c st = st" by (simp add: visitChild_def)
    moreover from Cons.IH [of st] obtain new where
      "fold (visitChild h) cs st = (fst st @ new, snd st @ new)"
      "set new = (\<lambda>c. id_post (h c)) ` set cs - set (fst st)" "distinct new" by blast
    ultimately show ?thesis using True by auto
  next
    case False
    let ?st = "(fst st @ [?i], snd st @ [?i])"
    have v: "visitChild h c st = ?st" using False by (simp add: visitChild_def)
    from Cons.IH [of ?st] obtain new where new:
      "fold (visitChild h) cs ?st = (fst ?st @ new, snd ?st @ new)"
      "set new = (\<lambda>c. id_post (h c)) ` set cs - set (fst ?st)" "distinct new" by blast
    have "fold (visitChild h) (c # cs) st = (fst st @ (?i # new), snd st @ (?i # new))"
      using v new(1) by simp
    moreover have "set (?i # new) = (\<lambda>c. id_post (h c)) ` set (c # cs) - set (fst st)"
      using new(2) False by auto
    moreover have "distinct (?i # new)" using new(2,3) by auto
    ultimately show ?thesis by blast
  qed
qed

lemma traversal_init: "traversal h cm root ([root], [root])"
  by (simp add: traversal_def)

lemma replyEdges_children:
  "(x, y) \<in> replyEdges h cm \<longleftrightarrow>
   y \<in> (\<lambda>c. id_post (h c)) ` set (case map_of cm x of None \<Rightarrow> [] | Some children \<Rightarrow> children)"
  by (cases "map_of cm x") (auto simp: replyEdges_def)

lemma traversal_step:
  assumes "traversal h cm root st" and "snd st \<noteq> []"
  shows "traversal h cm root (collectStep h cm st)"
proof -
  obtain cur rest where q: "snd st = cur # rest" using assms(2) by (cases "snd st") auto
  let ?E = "replyEdges h cm"
  define cs where "cs = (case map_of cm cur of None \<Rightarrow> [] | Some children \<Rightarrow> children)"
  define C where "C = (\<lambda>c. id_post (h c)) ` set cs"
  obtain new where new: "fold (visitChild h) cs (fst st, rest) = (fst st @ new, rest @ new)"
    "set new = C - set (fst st)" "distinct new"
    using fold_visitChild_new [of h cs "(fst st, rest)"] by (auto simp: C_def)
  have step: "collectStep h cm st = (fst st @ new, rest @ new)"
    using q new(1) by (simp add: collectStep_def cs_def)
  have I: "root \<in> set (fst st)" "cur \<in> set (fst st)" "set rest \<subseteq> set (fst st)" "distinct (fst st)"
    "set (fst st) \<subseteq> {i. (root, i) \<in> ?E\<^sup>*}"
    using assms(1) q by (auto simp: traversal_def)
  have I5: "y \<in> set (fst st)" if "x \<in> set (fst st)" "x \<noteq> cur" "x \<notin> set rest" "(x, y) \<in> ?E" for x y
    using assms(1) q that by (auto simp: traversal_def)
  have succ: "(cur, y) \<in> ?E \<longleftrightarrow> y \<in> C" for y
    unfolding C_def cs_def by (rule replyEdges_children)
  have "(root, cur) \<in> ?E\<^sup>*" using I(2,5) by auto
  moreover have "\<forall>y \<in> set new. (cur, y) \<in> ?E"
    using succ new(2) by blast
  ultimately have reach: "set new \<subseteq> {i. (root, i) \<in> ?E\<^sup>*}"
    by (blast intro: rtrancl_into_rtrancl)
  have closed: "y \<in> set (fst st @ new)"
    if "x \<in> set (fst st @ new)" "x \<notin> set (rest @ new)" "(x, y) \<in> ?E" for x y
  proof (cases "x = cur")
    case True
    then have "y \<in> C" using that(3) succ by simp
    then show ?thesis using new(2) by auto
  next
    case False
    then have "x \<in> set (fst st)" "x \<notin> set rest" using that(1,2) by auto
    then show ?thesis using I5 [of x y] False that(3) by auto
  qed
  have c1: "root \<in> set (fst st @ new)" using I(1) by simp
  have c2: "set (rest @ new) \<subseteq> set (fst st @ new)" using I(3) by auto
  have c3: "distinct (fst st @ new)" using I(4) new(2,3) by auto
  have c4: "set (fst st @ new) \<subseteq> {i. (root, i) \<in> ?E\<^sup>*}" using I(5) reach by auto
  have c5: "\<forall>x \<in> set (fst st @ new) - set (rest @ new).
      \<forall>y. (x, y) \<in> ?E \<longrightarrow> y \<in> set (fst st @ new)"
    using closed by blast
  show ?thesis
    unfolding traversal_def step fst_conv snd_conv by (intro conjI c1 c2 c3 c4 c5)
qed

lemma traversal_done:
  assumes "traversal h cm root st" and "snd st = []"
  shows "set (fst st) = {i. (root, i) \<in> (replyEdges h cm)\<^sup>*}"
proof
  show "set (fst st) \<subseteq> {i. (root, i) \<in> (replyEdges h cm)\<^sup>*}"
    using assms(1) unfolding traversal_def by (elim conjE)
next
  have r: "root \<in> set (fst st)" using assms(1) unfolding traversal_def by (elim conjE)
  have c: "y \<in> set (fst st)" if "x \<in> set (fst st)" "(x, y) \<in> replyEdges h cm" for x y
  proof -
    have "\<forall>x \<in> set (fst st) - set (snd st). \<forall>y. (x, y) \<in> replyEdges h cm \<longrightarrow> y \<in> set (fst st)"
      using assms(1) unfolding traversal_def by (elim conjE)
    then show ?thesis using that assms(2) by simp
  qed
  have "i \<in> set (fst st)" if "(root, i) \<in> (replyEdges h cm)\<^sup>*" for i
    using that
  proof (induction rule: rtrancl_induct)
    case base
    show ?case by (rule r)
  next
    case (step y z)
    show ?case using step.IH step.hyps(2) by (rule c)
  qed
  then show "{i. (root, i) \<in> (replyEdges h cm)\<^sup>*} \<subseteq> set (fst st)" by blast
qed

lemma collectLoop_traversal:
  "traversal h cm root st \<Longrightarrow>
   set (collectLoop h cm st) = {i. (root, i) \<in> (replyEdges h cm)\<^sup>*} \<and> distinct (collectLoop h cm st)"
proof (induction h cm st rule: collectLoop.induct)
  case (1 h cm st)
  show ?case
  proof (cases "snd st = []")
    case True
    have e: "collectLoop h cm st = fst st" using True by (simp add: collectLoop.simps)
    have d: "distinct (fst st)" using "1.prems" unfolding traversal_def by (elim conjE)
    show ?thesis unfolding e using traversal_done [OF "1.prems" True] d by (intro conjI)
  next
    case False
    have t: "traversal h cm root (collectStep h cm st)"
      using "1.prems" False by (rule traversal_step)
    have e: "collectLoop h cm st = collectLoop h cm (collectStep h cm st)"
      using False by (simp add: collectLoop.simps [of h cm st])
    show ?thesis unfolding e using False t by (rule "1.IH")
  qed
qed

lemma set_collectThreadIds:
  "set (collectThreadIds s rootId) = {i. (rootId, i) \<in> (replyEdges (heap s) (childrenByThreadId s))\<^sup>*}"
  using collectLoop_traversal [OF traversal_init] by (simp add: collectThreadIds_def)

lemma distinct_collectThreadIds: "distinct (collectThreadIds s rootId)"
  using collectLoop_traversal [OF traversal_init] by (simp add: collectThreadIds_def)

lemma collectThreadIds_leaf:
  assumes "getReplies s rootId = []"
  shows "collectThreadIds s rootId = [rootId]"
proof -
  have "collectStep (heap s) (childrenByThreadId s) ([rootId], [rootId]) = ([rootId], [])"
    using assms by (simp add: collectStep_def getReplies_def)
  then show ?thesis
    by (simp add: collectThreadIds_def collectLoop.simps [of _ _ "([rootId], [rootId])"]
        collectLoop.simps [of _ _ "([rootId], [])"])
qed

section \<open>What a rebuild computes\<close>

lemma buildById_snoc:
  "buildById h (ps @ [p]) = AList.update (id_post (h p)) p (buildById h ps)"
  by (simp add: buildById_def)

lemma map_of_buildById:
  "map_of (buildById h ps) k =
     (if filter (\<lambda>p. id_post (h p) = k) ps = [] then None
      else Some (last (filter (\<lambda>p. id_post (h p) = k) ps)))"
proof (induction ps rule: rev_induct)
  case Nil
  show ?case by (simp add: buildById_def)
next
  case (snoc p ps)
  show ?case using snoc.IH
    by (cases "id_post (h p) = k") (simp_all add: buildById_snoc update_conv')
qed

lemma map_of_buildById_None:
  "map_of (buildById h ps) k = None \<longleftrightarrow> k \<notin> (\<lambda>p. id_post (h p)) ` set ps"
  by (auto simp: map_of_buildById filter_empty_conv)

lemma map_of_buildById_SomeD:
  assumes "map_of (buildById h ps) k = Some p"
  shows "p \<in> set ps \<and> id_post (h p) = k"
proof -
  let ?fs = "filter (\<lambda>p. id_post (h p) = k) ps"
  have ne: "?fs \<noteq> []" and l: "p = last ?fs"
    using assms by (auto simp: map_of_buildById split: if_splits)
  then have "p \<in> set ?fs" using last_in_set by blast
  then show ?thesis by simp
qed

lemma map_of_buildById_distinct:
  assumes "distinct (map (\<lambda>p. id_post (h p)) ps)" and "p \<in> set ps"
  shows "map_of (buildById h ps) (id_post (h p)) = Some p"
proof -
  obtain q where q: "map_of (buildById h ps) (id_post (h p)) = Some q"
    using assms(2) map_of_buildById_None [of h ps "id_post (h p)"] by (cases "map_of (buildById h ps) (id_post (h p))") auto
  then have "q \<in> set ps" "id_post (h q) = id_post (h p)"
    using map_of_buildById_SomeD by blast+
  then have "q = p" using assms by (meson distinct_map inj_onD)
  then show ?thesis using q by simp
qed

lemma map_of_pushTo:
  "map_of (pushTo k p m) t =
     (if t = k then Some ((case map_of m k of None \<Rightarrow> [] | Some ps \<Rightarrow> ps) @ [p]) else map_of m t)"
  by (cases "map_of m k") (simp_all add: pushTo_def update_conv')

lemma fold_indexPost_snoc:
  "fold (indexPost h) (ps @ [p]) m = indexPost h p (fold (indexPost h) ps m)"
  by simp

lemma map_of_fst_indexPost:
  "map_of (fst (indexPost h p maps)) t =
     (if repliesTo h t p then Some ((case map_of (fst maps) t of None \<Rightarrow> [] | Some ps \<Rightarrow> ps) @ [p])
      else map_of (fst maps) t)"
  by (cases "threadId (h p)") (auto simp: indexPost_def Let_def map_of_pushTo repliesTo_def truthy_def)

lemma map_of_snd_indexPost:
  "map_of (snd (indexPost h p maps)) t =
     (if quotes h t p then Some ((case map_of (snd maps) t of None \<Rightarrow> [] | Some ps \<Rightarrow> ps) @ [p])
      else map_of (snd maps) t)"
  by (cases "quoteId (h p)") (auto simp: indexPost_def Let_def map_of_pushTo quotes_def truthy_def)

lemma map_of_childMap:
  "map_of (fst (fold (indexPost h) ps ([], []))) t =
     (if filter (repliesTo h t) ps = [] then None else Some (filter (repliesTo h t) ps))"
proof (induction ps rule: rev_induct)
  case Nil
  show ?case by simp
next
  case (snoc p ps)
  show ?case
    unfolding fold_indexPost_snoc map_of_fst_indexPost using snoc.IH by simp
qed

lemma map_of_quoteMap:
  "map_of (snd (fold (indexPost h) ps ([], []))) t =
     (if filter (quotes h t) ps = [] then None else Some (filter (quotes h t) ps))"
proof (induction ps rule: rev_induct)
  case Nil
  show ?case by simp
next
  case (snoc p ps)
  show ?case
    unfolding fold_indexPost_snoc map_of_snd_indexPost using snoc.IH by simp
qed

section \<open>Every call leaves the indices rebuilt\<close>

text \<open>
  A rebuild reads the object store and the primary collection only, so a second rebuild
  gives the same maps; every call ends with one, or changes nothing.
\<close>

lemma updatePostsById_fields [simp]:
  "heap (updatePostsById s) = heap s"
  "posts (updatePostsById s) = posts s"
  "postsById (updatePostsById s) = buildById (heap s) (posts s)"
  "childrenByThreadId (updatePostsById s) = fst (fold (indexPost (heap s)) (posts s) ([], []))"
  "quotesById (updatePostsById s) = snd (fold (indexPost (heap s)) (posts s) ([], []))"
  by (simp_all add: updatePostsById_def updateChildrenMap_def Let_def)

lemma updatePostsById_cong:
  "heap s = heap t \<Longrightarrow> posts s = posts t \<Longrightarrow> TweetStore.more s = TweetStore.more t \<Longrightarrow>
   updatePostsById s = updatePostsById t"
  by (simp add: updatePostsById_def updateChildrenMap_def Let_def)

lemma consistent_updatePostsById: "consistent (updatePostsById s)"
  unfolding consistent_def by (rule updatePostsById_cong) (simp_all add: updatePostsById_def updateChildrenMap_def Let_def)

lemma consistent_fields:
  assumes "consistent s"
  shows "postsById s = buildById (heap s) (posts s)"
    and "childrenByThreadId s = fst (fold (indexPost (heap s)) (posts s) ([], []))"
    and "quotesById s = snd (fold (indexPost (heap s)) (posts s) ([], []))"
proof -
  have e: "updatePostsById s = s" using assms by (simp add: consistent_def)
  show "postsById s = buildById (heap s) (posts s)"
    using updatePostsById_fields(3) [of s] unfolding e .
  show "childrenByThreadId s = fst (fold (indexPost (heap s)) (posts s) ([], []))"
    using updatePostsById_fields(4) [of s] unfolding e .
  show "quotesById s = snd (fold (indexPost (heap s)) (posts s) ([], []))"
    using updatePostsById_fields(5) [of s] unfolding e .
qed

lemma consistent_perform: "consistent s \<Longrightarrow> consistent (perform s c)"
  by (cases c)
     (auto simp: addPost_def updatePost_def deletePost_def deleteThread_def setAllSettings_def
        Let_def consistent_updatePostsById split: option.splits)

lemma consistent_new: "consistent (newTweetStore h ps)"
  by (simp add: newTweetStore_def consistent_updatePostsById)

lemma run_Cons: "run s (c # cs) = run (perform s c) cs"
  by (simp add: run_def)

lemma run_Nil: "run s [] = s"
  by (simp add: run_def)

lemma consistent_run: "consistent s \<Longrightarrow> consistent (run s cs)"
  by (induction cs arbitrary: s) (simp_all add: run_Nil run_Cons consistent_perform)

section \<open>Identifiers and the primary collection after a call\<close>

text \<open>
  No call changes the id of an object; the primary collection after a call is the old one
  with a post in front, or filtered, or the adopted one.
\<close>

lemma id_post_modify:
  "(\<And>p. id_post (f p) = id_post p) \<Longrightarrow> id_post (modify t f h r) = id_post (h r)"
  by (cases t) (simp_all add: modify_def)

lemma id_post_unquote: "id_post (unquote byId i h r) = id_post (h r)"
  by (simp add: unquote_def id_post_modify decRetweet_def)

lemma id_post_fold_unquote: "id_post (fold (unquote byId) is h r) = id_post (h r)"
  by (induction "is" arbitrary: h) (simp_all add: id_post_unquote)

lemma id_post_perform: "id_post (heap (perform s c) r) = id_post (heap s r)"
proof (cases c)
  case (AddPost post now1 now2)
  then show ?thesis
    by (simp add: addPost_def Let_def id_post_modify incReply_def incRetweet_def)
next
  case (UpdatePost postId updates now)
  then show ?thesis
    by (simp add: updatePost_def assign_def split: option.splits)
next
  case (DeletePost postId)
  then show ?thesis
    by (simp add: deletePost_def Let_def id_post_modify decReply_def decRetweet_def)
next
  case (DeleteThread rootId)
  then show ?thesis
    by (simp add: deleteThread_def Let_def id_post_fold_unquote id_post_modify decReply_def)
next
  case (SetAllSettings newPosts)
  then show ?thesis by (simp add: setAllSettings_def)
qed

lemma posts_perform:
  "posts (perform s c) =
     (case c of
        AddPost post now1 now2 \<Rightarrow> post # posts s
      | UpdatePost postId updates now \<Rightarrow> posts s
      | DeletePost postId \<Rightarrow> filter (\<lambda>p. id_post (heap s p) \<noteq> postId) (posts s)
      | DeleteThread rootId \<Rightarrow> filter (\<lambda>p. id_post (heap s p) \<notin> set (collectThreadIds s rootId)) (posts s)
      | SetAllSettings newPosts \<Rightarrow> newPosts)"
proof (cases c)
  case (AddPost post now1 now2)
  then show ?thesis by (simp add: addPost_def Let_def)
next
  case (UpdatePost postId updates now)
  then show ?thesis by (simp add: updatePost_def split: option.splits)
next
  case (DeletePost postId)
  then show ?thesis
    by (simp add: deletePost_def Let_def id_post_modify decReply_def decRetweet_def)
next
  case (DeleteThread rootId)
  then show ?thesis
    by (simp add: deleteThread_def Let_def id_post_fold_unquote id_post_modify decReply_def)
next
  case (SetAllSettings newPosts)
  then show ?thesis by (simp add: setAllSettings_def)
qed

lemma uniqueIds_perform:
  assumes "uniqueIds (heap s) (posts s)" and "allowed s c"
  shows "uniqueIds (heap (perform s c)) (posts (perform s c))"
proof -
  have ids: "(\<lambda>p. id_post (heap (perform s c) p)) = (\<lambda>p. id_post (heap s p))"
    by (simp add: id_post_perform)
  show ?thesis
    unfolding uniqueIds_def ids posts_perform
    using assms by (cases c) (simp_all add: uniqueIds_def distinct_map_filter)
qed

lemma eachCall_take: "eachCall P s cs \<Longrightarrow> eachCall P s (take n cs)"
proof (induction cs arbitrary: s n)
  case Nil
  then show ?case by simp
next
  case (Cons c cs)
  then show ?case by (cases n) simp_all
qed

lemma uniqueIds_run:
  "uniqueIds (heap s) (posts s) \<Longrightarrow> eachCall allowed s cs \<Longrightarrow> uniqueIds (heap (run s cs)) (posts (run s cs))"
  by (induction cs arbitrary: s) (simp_all add: run_Nil run_Cons uniqueIds_perform)

section \<open>Reading the rebuilt indices\<close>

lemma getReplies_consistent:
  "consistent s \<Longrightarrow> getReplies s t = filter (repliesTo (heap s) t) (posts s)"
  by (simp add: getReplies_def consistent_fields(2) map_of_childMap)

lemma getQuotePosts_consistent:
  "consistent s \<Longrightarrow> getQuotePosts s q = filter (quotes (heap s) q) (posts s)"
  by (simp add: getQuotePosts_def consistent_fields(3) map_of_quoteMap)

lemma repliesTo_nonempty: "t \<noteq> [] \<Longrightarrow> repliesTo h t = (\<lambda>p. threadId (h p) = Some t)"
  by (auto simp: repliesTo_def truthy_def fun_eq_iff)

lemma quotes_nonempty: "q \<noteq> [] \<Longrightarrow> quotes h q = (\<lambda>p. quoteId (h p) = Some q)"
  by (auto simp: quotes_def truthy_def fun_eq_iff)

section \<open>Counters that do not go below zero\<close>

lemma nonNegative_modify:
  assumes "\<And>p. nonNegative p \<Longrightarrow> nonNegative (f p)" and "nonNegative (h r)"
  shows "nonNegative (modify t f h r)"
  using assms by (cases t) (auto simp: modify_def)

lemma nonNegative_incReply: "nonNegative p \<Longrightarrow> nonNegative (incReply now p)"
  by (cases "replyCount p") (simp_all add: nonNegative_def incReply_def orZero_def)

lemma nonNegative_incRetweet: "nonNegative p \<Longrightarrow> nonNegative (incRetweet now p)"
  by (cases "retweet p") (simp_all add: nonNegative_def incRetweet_def orZero_def)

lemma nonNegative_decReply: "nonNegative p \<Longrightarrow> nonNegative (decReply p)"
  by (simp add: nonNegative_def decReply_def)

lemma nonNegative_decRetweet: "nonNegative p \<Longrightarrow> nonNegative (decRetweet p)"
  by (simp add: nonNegative_def decRetweet_def)

lemma nonNegative_fold_unquote:
  "nonNegative (h r) \<Longrightarrow> nonNegative (fold (unquote byId) is h r)"
  by (induction "is" arbitrary: h) (simp_all add: unquote_def nonNegative_modify nonNegative_decRetweet)

lemma nonNegative_assign:
  "nonNegative p \<Longrightarrow> suppliesNonNegative u \<Longrightarrow> nonNegative ((assign p u)\<lparr>updated := now\<rparr>)"
  by (auto simp: nonNegative_def suppliesNonNegative_def assign_def split: option.splits)

lemma nonNegative_perform:
  assumes "cautious s c" and "nonNegative (heap s r)"
  shows "nonNegative (heap (perform s c) r)"
proof (cases c)
  case (AddPost post now1 now2)
  then show ?thesis using assms(2)
    by (simp add: addPost_def Let_def nonNegative_modify nonNegative_incReply nonNegative_incRetweet)
next
  case (UpdatePost postId updates now)
  then show ?thesis using assms
    by (simp add: updatePost_def nonNegative_assign split: option.splits)
next
  case (DeletePost postId)
  then show ?thesis using assms(2)
    by (simp add: deletePost_def Let_def nonNegative_modify nonNegative_decReply nonNegative_decRetweet)
next
  case (DeleteThread rootId)
  then show ?thesis using assms(2)
    by (simp add: deleteThread_def Let_def nonNegative_fold_unquote nonNegative_modify nonNegative_decReply)
next
  case (SetAllSettings newPosts)
  then show ?thesis using assms(1) by simp
qed

lemma nonNegative_store_perform:
  assumes "\<forall>p \<in> set (posts s). nonNegative (heap s p)" and "cautious s c"
  shows "\<forall>p \<in> set (posts (perform s c)). nonNegative (heap (perform s c) p)"
proof
  fix p assume p: "p \<in> set (posts (perform s c))"
  have "nonNegative (heap s p)"
    using p assms unfolding posts_perform by (cases c) auto
  with assms(2) show "nonNegative (heap (perform s c) p)" by (rule nonNegative_perform)
qed

lemma nonNegative_run:
  "\<forall>p \<in> set (posts s). nonNegative (heap s p) \<Longrightarrow> eachCall cautious s cs \<Longrightarrow>
   \<forall>p \<in> set (posts (run s cs)). nonNegative (heap (run s cs) p)"
proof (induction cs arbitrary: s)
  case Nil
  then show ?case by (simp add: run_Nil)
next
  case (Cons c cs)
  have "\<forall>p \<in> set (posts (perform s c)). nonNegative (heap (perform s c) p)"
    using Cons.prems by (intro nonNegative_store_perform) simp_all
  moreover have "eachCall cautious (perform s c) cs" using Cons.prems(2) by simp
  ultimately show ?case unfolding run_Cons by (rule Cons.IH)
qed

section \<open>Further facts about the calls\<close>

lemma filter_other_ids:
  "postId \<notin> (\<lambda>p. id_post (h p)) ` set ps \<Longrightarrow> filter (\<lambda>p. id_post (h p) \<noteq> postId) ps = ps"
  by (induction ps) auto

lemma buildById_cong:
  "(\<And>p. id_post (h' p) = id_post (h p)) \<Longrightarrow> buildById h' ps = buildById h ps"
  by (simp add: buildById_def)

lemma replyCount_unquote: "replyCount (unquote byId i h r) = replyCount (h r)"
  by (cases "resolve byId (quoteIdOf h (map_of byId i))") (simp_all add: unquote_def modify_def decRetweet_def)

lemma replyCount_fold_unquote: "replyCount (fold (unquote byId) is h r) = replyCount (h r)"
  by (induction "is" arbitrary: h) (simp_all add: replyCount_unquote)

text \<open>
  \<open>updatePost\<close> writes the one object the index returns for the id; with unique ids that
  is the post of the collection that carries the id.
\<close>

lemma updatePost_writes_indexed:
  assumes "getPostById s postId = Some r"
  shows "heap (updatePost s postId updates now) =
           (heap s)(r := (assign (heap s r) updates)\<lparr>updated := now\<rparr>)"
    and "posts (updatePost s postId updates now) = posts s"
  using assms by (simp_all add: getPostById_def updatePost_def)

lemma getPostById_unique:
  assumes "consistent s" and "uniqueIds (heap s) (posts s)" and "R \<in> set (posts s)"
  shows "getPostById s (id_post (heap s R)) = Some R"
  using assms(2,3)
  by (simp add: getPostById_def consistent_fields(1) [OF assms(1)] map_of_buildById_distinct uniqueIds_def)

lemma consistent_addPost: "consistent (addPost s post now1 now2)"
  by (simp add: addPost_def Let_def consistent_updatePostsById)

section \<open>The counters after deleteThread\<close>

lemma unquote_apply:
  "unquote byId i h r = (if quoteTarget byId h i = Some r then decRetweet (h r) else h r)"
  by (cases "quoteTarget byId h i") (auto simp: unquote_def quoteTarget_def modify_def)

lemma quoteTarget_cong:
  "(\<And>p. quoteId (h' p) = quoteId (h p)) \<Longrightarrow> quoteTarget byId h' i = quoteTarget byId h i"
  by (cases "map_of byId i") (simp_all add: quoteTarget_def quoteIdOf_def)

lemma quoteId_unquote: "quoteId (unquote byId i h p) = quoteId (h p)"
  by (simp add: unquote_apply decRetweet_def)

lemma fold_unquote_apply:
  "fold (unquote byId) is h r =
     (decRetweet ^^ length (filter (\<lambda>i. quoteTarget byId h i = Some r) is)) (h r)"
proof (induction "is" arbitrary: h)
  case Nil
  show ?case by simp
next
  case (Cons i "is")
  let ?h = "unquote byId i h"
  have t: "quoteTarget byId ?h j = quoteTarget byId h j" for j
    by (rule quoteTarget_cong) (rule quoteId_unquote)
  have "fold (unquote byId) (i # is) h r = fold (unquote byId) is ?h r" by simp
  also have "\<dots> = (decRetweet ^^ length (filter (\<lambda>j. quoteTarget byId ?h j = Some r) is)) (?h r)"
    by (rule Cons.IH)
  also have "\<dots> = (decRetweet ^^ length (filter (\<lambda>j. quoteTarget byId h j = Some r) is)) (?h r)"
    by (simp only: t)
  also have "\<dots> = (decRetweet ^^ length (filter (\<lambda>j. quoteTarget byId h j = Some r) (i # is))) (h r)"
  proof (cases "quoteTarget byId h i = Some r")
    case True
    then have "?h r = decRetweet (h r)" by (simp add: unquote_apply)
    then show ?thesis using True by (simp add: funpow_swap1)
  next
    case False
    then have "?h r = h r" by (simp add: unquote_apply)
    then show ?thesis using False by simp
  qed
  finally show ?case .
qed

lemma decRetweet_twice:
  "decRetweet (p\<lparr>retweet := Some (max 0 (n - int k))\<rparr>) = p\<lparr>retweet := Some (max 0 (n - int (Suc k)))\<rparr>"
  by (simp add: decRetweet_def orZero_def)

lemma decRetweet_funpow:
  "(decRetweet ^^ k) p =
     (if k = 0 then p else p\<lparr>retweet := Some (max 0 (orZero (retweet p) - int k))\<rparr>)"
proof (induction k)
  case 0
  show ?case by simp
next
  case (Suc k)
  show ?case
  proof (cases "k = 0")
    case True
    then show ?thesis by (simp add: decRetweet_def)
  next
    case False
    have "(decRetweet ^^ Suc k) p = decRetweet ((decRetweet ^^ k) p)" by simp
    also have "\<dots> = decRetweet (p\<lparr>retweet := Some (max 0 (orZero (retweet p) - int k))\<rparr>)"
      using False by (simp only: Suc.IH if_False)
    also have "\<dots> = p\<lparr>retweet := Some (max 0 (orZero (retweet p) - int (Suc k)))\<rparr>"
      by (rule decRetweet_twice)
    finally show ?thesis by simp
  qed
qed

lemma quoteTarget_count:
  assumes u: "uniqueIds h ps" and t: "T \<in> set ps" and d: "distinct ids"
    and q: "\<And>p. quoteId (h1 p) = quoteId (h p)"
  shows "length (filter (\<lambda>i. quoteTarget (buildById h ps) h1 i = Some T) ids) =
         length (filter (\<lambda>p. id_post (h p) \<in> set ids \<and> quotes h (id_post (h T)) p) ps)"
proof -
  let ?byId = "buildById h ps"
  let ?A = "{i \<in> set ids. quoteTarget ?byId h1 i = Some T}"
  let ?B = "{p \<in> set ps. id_post (h p) \<in> set ids \<and> quotes h (id_post (h T)) p}"
  have dist: "distinct (map (\<lambda>p. id_post (h p)) ps)" using u by (simp add: uniqueIds_def)
  then have dps: "distinct ps" by (simp add: distinct_map)
  have look: "map_of ?byId (id_post (h p)) = Some p" if "p \<in> set ps" for p
    using dist that by (rule map_of_buildById_distinct)
  have tq: "quoteTarget ?byId h1 i = quoteTarget ?byId h i" for i
    using q by (rule quoteTarget_cong)
  have fwd: "quoteTarget ?byId h (id_post (h p)) = Some T" if "p \<in> ?B" for p
  proof -
    have "p \<in> set ps" "truthy (quoteId (h p))" "quoteId (h p) = Some (id_post (h T))"
      using that by (auto simp: quotes_def)
    then show ?thesis
      using look [of p] look [OF t] by (simp add: quoteTarget_def quoteIdOf_def resolve_def)
  qed
  have bwd: "\<exists>p \<in> ?B. id_post (h p) = i" if "i \<in> ?A" for i
  proof -
    have i: "i \<in> set ids" "quoteTarget ?byId h i = Some T" using that tq by simp_all
    then obtain p where p: "map_of ?byId i = Some p"
      by (cases "map_of ?byId i") (simp_all add: quoteTarget_def quoteIdOf_def resolve_def truthy_def)
    then have pp: "p \<in> set ps" "id_post (h p) = i" using map_of_buildById_SomeD by blast+
    have r: "resolve ?byId (quoteId (h p)) = Some T"
      using i(2) p by (simp add: quoteTarget_def quoteIdOf_def)
    then have tr: "truthy (quoteId (h p))" by (simp add: resolve_def split: if_splits)
    then obtain k where k: "quoteId (h p) = Some k" by (cases "quoteId (h p)") (simp_all add: truthy_def)
    then have "map_of ?byId k = Some T" using r tr by (simp add: resolve_def)
    then have "id_post (h T) = k" using map_of_buildById_SomeD by blast
    then have "quotes h (id_post (h T)) p" using tr k by (simp add: quotes_def)
    then show ?thesis using pp i(1) by blast
  qed
  have img: "(\<lambda>p. id_post (h p)) ` ?B = ?A"
  proof
    show "(\<lambda>p. id_post (h p)) ` ?B \<subseteq> ?A" using fwd tq by auto
    show "?A \<subseteq> (\<lambda>p. id_post (h p)) ` ?B" using bwd by blast
  qed
  have inj: "inj_on (\<lambda>p. id_post (h p)) ?B"
    using dist by (auto simp: distinct_map intro: inj_on_subset)
  have "length (filter (\<lambda>i. quoteTarget ?byId h1 i = Some T) ids) = card ?A"
    using d by (simp add: distinct_length_filter Int_def conj_commute)
  also have "\<dots> = card ?B" using card_image [OF inj] img by simp
  also have "\<dots> = length (filter (\<lambda>p. id_post (h p) \<in> set ids \<and> quotes h (id_post (h T)) p) ps)"
    using dps by (simp add: distinct_length_filter Int_def conj_commute)
  finally show ?thesis .
qed

lemma modify_decReply_fields:
  "retweet (modify t decReply h r) = retweet (h r)"
  "quoteId (modify t decReply h r) = quoteId (h r)"
  "replyCount (modify t decReply h r) =
     (if t = Some r then Some (max 0 (orZero (replyCount (h r)) - 1)) else replyCount (h r))"
  by (cases t; auto simp: modify_def decReply_def)+

lemma heap_deleteThread:
  "heap (deleteThread s rootId) =
     fold (unquote (postsById s)) (collectThreadIds s rootId)
       (modify (grandparent s rootId) decReply (heap s))"
  by (simp add: deleteThread_def Let_def grandparent_def getPostById_def)

section \<open>Facts about the example stores\<close>

lemma consistent_familyStore: "consistent familyStore"
  unfolding familyStore_def by (rule consistent_new)

lemma consistent_drifted: "consistent drifted"
  unfolding drifted_def by (intro consistent_run consistent_new)

lemma consistent_doubled: "consistent doubled"
  unfolding doubled_def by (rule consistent_addPost)

lemma consistent_replied: "consistent replied"
  unfolding replied_def by (rule consistent_addPost)

lemma replyEdges_single: "replyEdges h [(a, [c])] = {(a, id_post (h c))}"
  by (auto simp: replyEdges_def split: if_splits)

lemma drifted_eval:
  "posts drifted = [2, 1, 0]" "childrenByThreadId drifted = [(''o'', [2])]"
  "postsById drifted = [(''r'', 2), (''o'', 1), (''p'', 0)]"
  "id_post (heap drifted 2) = ''r''"
  by code_simp+

lemma replyForest_drifted: "replyForest drifted"
proof -
  have "uniqueIds (heap drifted) (posts drifted)" by code_simp
  moreover have "acyclic (replyEdges (heap drifted) (childrenByThreadId drifted))"
    by (simp add: drifted_eval replyEdges_single acyclic_def trancl_insert)
  ultimately show ?thesis by (simp add: replyForest_def)
qed

lemma loopStore_cyclic:
  "(''a'', ''a'') \<in> (replyEdges (heap loopStore) (childrenByThreadId loopStore))\<^sup>+"
proof -
  have c: "childrenByThreadId loopStore = [(''b'', [0]), (''a'', [1])]" by code_simp
  have i: "id_post (heap loopStore 0) = ''a''" "id_post (heap loopStore (Suc 0)) = ''b''"
    by code_simp+
  have "(''a'', ''b'') \<in> replyEdges (heap loopStore) (childrenByThreadId loopStore)"
    unfolding c by (simp add: replyEdges_def i)
  moreover have "(''b'', ''a'') \<in> replyEdges (heap loopStore) (childrenByThreadId loopStore)"
    unfolding c by (simp add: replyEdges_def i)
  ultimately show ?thesis by (rule trancl_into_trancl [OF r_into_trancl])
qed

section \<open>The claims\<close>

subsection \<open>C1\<close>

text \<open>
  As stated, the property fails in two ways. After \<open>addPost\<close> of a post whose id is taken,
  the new post is in the primary collection and \<open>postsById\<close> does not return it for its
  id. And a post whose \<open>threadId\<close> is the empty string is filed under no identifier: it
  is not among the replies to \<open>''\<close>.
\<close>

theorem indices_counterexample:
  "uniqueIds family [1] \<and>
   5 \<in> set (posts (run (newTweetStore family [1]) [AddPost 5 7 7])) \<and>
   getPostById (run (newTweetStore family [1]) [AddPost 5 7 7])
     (id_post (heap (run (newTweetStore family [1]) [AddPost 5 7 7]) 5)) \<noteq> Some 5 \<and>
   uniqueIds family [6] \<and>
   6 \<in> set (posts (run (newTweetStore family [6]) [UpdatePost ''e'' noUpdates 3])) \<and>
   threadId (heap (run (newTweetStore family [6]) [UpdatePost ''e'' noUpdates 3]) 6) = Some [] \<and>
   6 \<notin> set (getReplies (run (newTweetStore family [6]) [UpdatePost ''e'' noUpdates 3]) [])"
  by code_simp

text \<open>
  C1 (amended). Take a store constructed on a collection with unique ids and any sequence
  of calls in which every \<open>addPost\<close> adds a post whose id the store does not hold and every
  \<open>setAllSettings\<close> adopts a collection with unique ids. After each call (after the first
  \<open>n\<close> calls, for every \<open>n\<close>) the indices are what a rebuild from the primary collection
  gives: \<open>postsById.get(p.id)\<close> is \<open>p\<close> for every post \<open>p\<close> of the collection, and for
  every non-empty identifier \<open>t\<close> the replies (the quoting posts) filed under \<open>t\<close> are
  exactly the posts whose \<open>threadId\<close> (\<open>quoteId\<close>) is \<open>t\<close>, in the order of the collection.
\<close>

theorem indices_match_rebuild:
  assumes "uniqueIds h ps" and "eachCall allowed (newTweetStore h ps) cs"
  shows "updatePostsById (run (newTweetStore h ps) (take n cs)) = run (newTweetStore h ps) (take n cs)
    \<and> (\<forall>p \<in> set (posts (run (newTweetStore h ps) (take n cs))).
         getPostById (run (newTweetStore h ps) (take n cs))
           (id_post (heap (run (newTweetStore h ps) (take n cs)) p)) = Some p)
    \<and> (\<forall>t. t \<noteq> [] \<longrightarrow>
         getReplies (run (newTweetStore h ps) (take n cs)) t =
         filter (\<lambda>p. threadId (heap (run (newTweetStore h ps) (take n cs)) p) = Some t)
           (posts (run (newTweetStore h ps) (take n cs))))
    \<and> (\<forall>q. q \<noteq> [] \<longrightarrow>
         getQuotePosts (run (newTweetStore h ps) (take n cs)) q =
         filter (\<lambda>p. quoteId (heap (run (newTweetStore h ps) (take n cs)) p) = Some q)
           (posts (run (newTweetStore h ps) (take n cs))))"
proof -
  define s where "s = run (newTweetStore h ps) (take n cs)"
  have c: "consistent s" unfolding s_def by (intro consistent_run consistent_new)
  have "uniqueIds (heap (newTweetStore h ps)) (posts (newTweetStore h ps))"
    using assms(1) by (simp add: newTweetStore_def)
  then have u: "uniqueIds (heap s) (posts s)"
    unfolding s_def using assms(2) by (intro uniqueIds_run eachCall_take)
  have a: "updatePostsById s = s" using c by (simp add: consistent_def)
  have b: "\<forall>p \<in> set (posts s). getPostById s (id_post (heap s p)) = Some p"
    using u by (simp add: getPostById_def consistent_fields(1) [OF c] map_of_buildById_distinct uniqueIds_def)
  have r: "\<forall>t. t \<noteq> [] \<longrightarrow> getReplies s t = filter (\<lambda>p. threadId (heap s p) = Some t) (posts s)"
    by (simp add: getReplies_consistent [OF c] repliesTo_nonempty)
  have q: "\<forall>q. q \<noteq> [] \<longrightarrow> getQuotePosts s q = filter (\<lambda>p. quoteId (heap s p) = Some q) (posts s)"
    by (simp add: getQuotePosts_consistent [OF c] quotes_nonempty)
  show ?thesis using a b r q unfolding s_def by (intro conjI)
qed

text \<open>An instance: the thread \<open>z\<close>, \<open>a\<close>, to which \<open>b\<close> is added.\<close>

theorem indices_match_rebuild_witness:
  "uniqueIds family [1, 0] \<and>
   eachCall allowed (newTweetStore family [1, 0]) [AddPost 2 5 6, DeleteThread ''a''] \<and>
   updatePostsById grown = grown \<and>
   2 \<in> set (posts grown) \<and>
   getPostById grown (id_post (heap grown 2)) = Some 2 \<and>
   getReplies grown ''a'' = filter (\<lambda>p. threadId (heap grown p) = Some ''a'') (posts grown) \<and>
   getQuotePosts grown ''t'' = filter (\<lambda>p. quoteId (heap grown p) = Some ''t'') (posts grown) \<and>
   getReplies grown ''a'' = [2] \<and> getQuotePosts grown ''t'' = [2]"
proof -
  have u: "uniqueIds family [1, 0]" by code_simp
  have a: "eachCall allowed (newTweetStore family [1, 0]) [AddPost 2 5 6, DeleteThread ''a'']"
    by code_simp
  note t = indices_match_rebuild [OF u a, of 1, folded grown_def]
  have m: "2 \<in> set (posts grown)" by code_simp
  have b: "getPostById grown (id_post (heap grown 2)) = Some 2"
    using t [THEN conjunct2, THEN conjunct1] m by (rule bspec)
  have r: "getReplies grown ''a'' = filter (\<lambda>p. threadId (heap grown p) = Some ''a'') (posts grown)"
    using t [THEN conjunct2, THEN conjunct2, THEN conjunct1, THEN spec, of "''a''"] by simp
  have q: "getQuotePosts grown ''t'' = filter (\<lambda>p. quoteId (heap grown p) = Some ''t'') (posts grown)"
    using t [THEN conjunct2, THEN conjunct2, THEN conjunct2, THEN spec, of "''t''"] by simp
  have v: "getReplies grown ''a'' = [2]" "getQuotePosts grown ''t'' = [2]"
    by code_simp+
  show ?thesis
    by (intro conjI u a t [THEN conjunct1] m b r q v)
qed

subsection \<open>C2\<close>

text \<open>
  C2 (the code departs from it). \<open>deletePost('b')\<close> on the example thread lowers the
  \<open>replyCount\<close> of the parent \<open>a\<close> from 1 to 0 and leaves its \<open>updated\<close> timestamp as
  it was, and so does \<open>deleteThread('a')\<close> with the parent \<open>z\<close>: the two deletions read
  no clock at all.
\<close>

theorem deletePost_keeps_updated:
  "replyCount (heap familyStore 1) = Some 1 \<and>
   replyCount (heap (deletePost familyStore ''b'') 1) = Some 0 \<and>
   updated (heap (deletePost familyStore ''b'') 1) = updated (heap familyStore 1) \<and>
   replyCount (heap familyStore 0) = Some 1 \<and>
   replyCount (heap (deleteThread familyStore ''a'') 0) = Some 0 \<and>
   updated (heap (deleteThread familyStore ''a'') 0) = updated (heap familyStore 0)"
  by code_simp

text \<open>
  The sibling path does refresh it: \<open>addPost\<close> of the reply \<open>c\<close> raises the \<open>replyCount\<close>
  of \<open>z\<close> and sets its \<open>updated\<close> to the reading of the clock.
\<close>

lemma addPost_refreshes_updated:
  "replyCount (heap (addPost familyStore 4 5 6) 0) = Some 2 \<and>
   updated (heap (addPost familyStore 4 5 6) 0) = 5"
  by code_simp

subsection \<open>C3\<close>

text \<open>
  As stated, the property fails: \<open>updatePost\<close> copies whatever the caller hands it, a
  negative \<open>replyCount\<close> too, and \<open>addPost\<close> takes a post with the counters it has.
\<close>

theorem counters_counterexample:
  "nonNegative (family 0) \<and>
   0 \<in> set (posts (run (newTweetStore family [0]) [UpdatePost ''z'' negativeReplyCount 9])) \<and>
   replyCount (heap (run (newTweetStore family [0]) [UpdatePost ''z'' negativeReplyCount 9]) 0) = Some (- 1) \<and>
   7 \<in> set (posts (run (newTweetStore family [0]) [AddPost 7 9 9])) \<and>
   replyCount (heap (run (newTweetStore family [0]) [AddPost 7 9 9]) 7) = Some (- 2)"
  by code_simp

text \<open>
  C3 (amended). Take a store constructed on posts whose \<open>replyCount\<close> and \<open>retweet\<close> are
  absent or at least 0, and any sequence of \<open>addPost\<close>, \<open>updatePost\<close>, \<open>deletePost\<close> and
  \<open>deleteThread\<close> calls in which no added post and no update carries a negative counter.
  After each call every post of the store has counters that are absent or at least 0,
  whatever the order of the deletions.
\<close>

theorem counters_stay_non_negative:
  assumes "\<forall>p \<in> set ps. nonNegative (h p)" and "eachCall cautious (newTweetStore h ps) cs"
  shows "\<forall>p \<in> set (posts (run (newTweetStore h ps) (take n cs))).
           nonNegative (heap (run (newTweetStore h ps) (take n cs)) p)"
proof -
  have "\<forall>p \<in> set (posts (newTweetStore h ps)). nonNegative (heap (newTweetStore h ps) p)"
    using assms(1) by (simp add: newTweetStore_def)
  moreover have "eachCall cautious (newTweetStore h ps) (take n cs)"
    using assms(2) by (rule eachCall_take)
  ultimately show ?thesis by (rule nonNegative_run)
qed

text \<open>An instance: two deletions and an insertion on the example thread.\<close>

theorem counters_stay_non_negative_witness:
  "nonNegative (family 2) \<and> nonNegative (family 1) \<and> nonNegative (family 0) \<and>
   nonNegative (family 3) \<and>
   eachCall cautious (newTweetStore family [2, 1, 0, 3])
     [DeletePost ''b'', DeletePost ''a'', AddPost 4 5 6] \<and>
   posts pruned = [4, 0, 3] \<and>
   nonNegative (heap pruned 4) \<and> nonNegative (heap pruned 0) \<and> nonNegative (heap pruned 3) \<and>
   replyCount (heap pruned 0) = Some 1 \<and> retweet (heap pruned 3) = Some 0"
proof -
  have n: "nonNegative (family 2)" "nonNegative (family 1)" "nonNegative (family 0)"
    "nonNegative (family 3)"
    by code_simp+
  then have i: "\<forall>p \<in> set [2, 1, 0, 3]. nonNegative (family p)" by simp
  have c: "eachCall cautious (newTweetStore family [2, 1, 0, 3])
      [DeletePost ''b'', DeletePost ''a'', AddPost 4 5 6]"
    by code_simp
  note t = counters_stay_non_negative [OF i c, of 3, folded pruned_def]
  have p: "posts pruned = [4, 0, 3]" by code_simp
  have k: "nonNegative (heap pruned 4)" "nonNegative (heap pruned 0)" "nonNegative (heap pruned 3)"
    using t unfolding p by (rule bspec, simp)+
  have v: "replyCount (heap pruned 0) = Some 1" "retweet (heap pruned 3) = Some 0"
    by code_simp+
  show ?thesis by (intro conjI n c p k v)
qed

subsection \<open>C4\<close>

text \<open>
  As stated, the property fails: the decrement is floored at 0. In the store where \<open>r\<close>
  was moved under \<open>o\<close> by an update, the reply relation is a forest, the \<open>threadId\<close> of \<open>r\<close>
  resolves to \<open>o\<close>, which survives \<open>deleteThread('r')\<close>, and the \<open>replyCount\<close> of \<open>o\<close> is 0
  before and after: it does not go down by 1.
\<close>

theorem deleteThread_counters_counterexample:
  "replyForest drifted \<and> getPostById drifted ''r'' = Some 2 \<and>
   threadId (heap drifted 2) = Some ''o'' \<and> getPostById drifted ''o'' = Some 1 \<and>
   1 \<in> set (posts (deleteThread drifted ''r'')) \<and>
   replyCount (heap drifted 1) = Some 0 \<and>
   replyCount (heap (deleteThread drifted ''r'') 1) = Some 0"
proof -
  have e: "getPostById drifted ''r'' = Some 2" "threadId (heap drifted 2) = Some ''o''"
    "getPostById drifted ''o'' = Some 1" "1 \<in> set (posts (deleteThread drifted ''r''))"
    "replyCount (heap drifted 1) = Some 0" "replyCount (heap (deleteThread drifted ''r'') 1) = Some 0"
    by code_simp+
  show ?thesis by (intro conjI replyForest_drifted e)
qed

text \<open>
  C4 (amended). After \<open>deleteThread(rootId)\<close> on a store with unique ids, for every
  surviving post \<open>T\<close>: (1) if the \<open>threadId\<close> of the root post resolves to \<open>T\<close>, the
  \<open>replyCount\<close> of \<open>T\<close> becomes \<open>max(0, old - 1)\<close>, with an absent count read as 0: it
  goes down by exactly 1 (not by the number of deleted posts) when it was at least 1, and is
  0 otherwise; (2) with \<open>k\<close> the number of deleted posts whose \<open>quoteId\<close> is the id of \<open>T\<close>,
  the \<open>retweet\<close> of \<open>T\<close> is unchanged when \<open>k = 0\<close> and becomes \<open>max(0, old - k)\<close>
  otherwise; (3) no other counter of a surviving post changes. A forest is not needed.
\<close>

theorem deleteThread_counters:
  assumes "consistent s" and "uniqueIds (heap s) (posts s)"
    and "T \<in> set (posts (deleteThread s rootId))"
  shows "replyCount (heap (deleteThread s rootId) T) =
           (if grandparent s rootId = Some T
            then Some (max 0 (orZero (replyCount (heap s T)) - 1))
            else replyCount (heap s T)) \<and>
         retweet (heap (deleteThread s rootId) T) =
           (if deletedQuoters s rootId T = 0 then retweet (heap s T)
            else Some (max 0 (orZero (retweet (heap s T)) - int (deletedQuoters s rootId T))))"
proof -
  let ?h1 = "modify (grandparent s rootId) decReply (heap s)"
  let ?ids = "collectThreadIds s rootId"
  let ?k = "length (filter (\<lambda>i. quoteTarget (postsById s) ?h1 i = Some T) ?ids)"
  have T: "T \<in> set (posts s)"
    using assms(3) posts_perform [of s "DeleteThread rootId"] by simp
  have byId: "postsById s = buildById (heap s) (posts s)"
    using assms(1) by (rule consistent_fields(1))
  have k: "?k = deletedQuoters s rootId T"
    unfolding byId deletedQuoters_def
    using assms(2) T distinct_collectThreadIds modify_decReply_fields(2)
    by (rule quoteTarget_count)
  have h: "heap (deleteThread s rootId) T = (decRetweet ^^ ?k) (?h1 T)"
    unfolding heap_deleteThread by (rule fold_unquote_apply)
  have r: "replyCount (heap (deleteThread s rootId) T) = replyCount (?h1 T)"
    unfolding heap_deleteThread by (rule replyCount_fold_unquote)
  have "retweet (heap (deleteThread s rootId) T) =
      (if ?k = 0 then retweet (?h1 T) else Some (max 0 (orZero (retweet (?h1 T)) - int ?k)))"
    unfolding h decRetweet_funpow by simp
  then have w: "retweet (heap (deleteThread s rootId) T) =
      (if deletedQuoters s rootId T = 0 then retweet (heap s T)
       else Some (max 0 (orZero (retweet (heap s T)) - int (deletedQuoters s rootId T))))"
    unfolding k modify_decReply_fields(1) .
  show ?thesis using r w by (simp add: modify_decReply_fields(3))
qed

text \<open>
  An instance: \<open>deleteThread('a')\<close> on the example thread removes \<open>a\<close> and \<open>b\<close>; the
  \<open>replyCount\<close> of \<open>z\<close> goes from 1 to 0 (two posts are removed) and the \<open>retweet\<close> of
  \<open>t\<close>, which \<open>b\<close> quoted, from 1 to 0.
\<close>

theorem deleteThread_counters_witness:
  "consistent familyStore \<and> uniqueIds (heap familyStore) (posts familyStore) \<and>
   0 \<in> set (posts (deleteThread familyStore ''a'')) \<and>
   3 \<in> set (posts (deleteThread familyStore ''a'')) \<and>
   replyCount (heap familyStore 0) = Some 1 \<and>
   replyCount (heap (deleteThread familyStore ''a'') 0) = Some 0 \<and>
   retweet (heap familyStore 3) = Some 1 \<and>
   retweet (heap (deleteThread familyStore ''a'') 3) = Some 0 \<and>
   replyCount (heap (deleteThread familyStore ''a'') 3) = replyCount (heap familyStore 3)"
proof -
  have u: "uniqueIds (heap familyStore) (posts familyStore)" by code_simp
  have s: "0 \<in> set (posts (deleteThread familyStore ''a''))" "3 \<in> set (posts (deleteThread familyStore ''a''))"
    by code_simp+
  have g: "grandparent familyStore ''a'' = Some 0" by code_simp
  have q: "deletedQuoters familyStore ''a'' 3 = 1" by code_simp
  have v: "replyCount (heap familyStore 0) = Some 1" "retweet (heap familyStore 3) = Some 1"
    by code_simp+
  show ?thesis
    using deleteThread_counters [OF consistent_familyStore u s(1)]
      deleteThread_counters [OF consistent_familyStore u s(2)]
      consistent_familyStore u s
    by (simp add: g q v orZero_def)
qed

subsection \<open>C5\<close>

text \<open>
  C5. \<open>collectThreadIds(rootId)\<close> returns exactly \<open>rootId\<close> and the ids reachable from it
  along the edges of the \<open>childrenByThreadId\<close> index, each of them once; for a root with no
  children it returns the one-element sequence \<open>[rootId]\<close>. This holds for every store, so
  for every store whose reply relation is a forest.
\<close>

theorem collectThreadIds_subtree:
  "set (collectThreadIds s rootId) =
     insert rootId {i. (rootId, i) \<in> (replyEdges (heap s) (childrenByThreadId s))\<^sup>+} \<and>
   distinct (collectThreadIds s rootId) \<and>
   (getReplies s rootId = [] \<longrightarrow> collectThreadIds s rootId = [rootId])"
proof -
  have "{i. (rootId, i) \<in> (replyEdges (heap s) (childrenByThreadId s))\<^sup>*} =
      insert rootId {i. (rootId, i) \<in> (replyEdges (heap s) (childrenByThreadId s))\<^sup>+}"
    by (auto simp: rtrancl_eq_or_trancl)
  then show ?thesis
    using set_collectThreadIds [of s rootId] distinct_collectThreadIds [of s rootId]
      collectThreadIds_leaf [of s rootId]
    by simp
qed

text \<open>An instance: the leaf \<open>b\<close> and the root \<open>z\<close> of the example thread.\<close>

theorem collectThreadIds_subtree_witness:
  "getReplies familyStore ''b'' = [] \<and> collectThreadIds familyStore ''b'' = [''b''] \<and>
   set (collectThreadIds familyStore ''z'') =
     insert ''z'' {i. (''z'', i) \<in> (replyEdges (heap familyStore) (childrenByThreadId familyStore))\<^sup>+} \<and>
   collectThreadIds familyStore ''z'' = [''z'', ''a'', ''b'']"
proof -
  have e: "getReplies familyStore ''b'' = []" by code_simp
  have z: "collectThreadIds familyStore ''z'' = [''z'', ''a'', ''b'']" by code_simp
  show ?thesis
    using collectThreadIds_subtree [of familyStore "''b''"] collectThreadIds_subtree [of familyStore "''z''"] e z
    by simp
qed

subsection \<open>C6\<close>

text \<open>
  C6. \<open>collectThreadIds(rootId)\<close> terminates in every state of the store, cyclic reply
  relations included: the queue, seeded with \<open>rootId\<close>, is empty after some number \<open>n\<close> of
  turns of the loop and not before, \<open>n\<close> is at most the number of distinct identifiers (the
  root and the ids of the posts the index lists), the result is the set of visited ids at
  that point, and no id is in it twice.
\<close>

theorem collectThreadIds_terminates:
  "\<exists>n \<le> Suc (card (set (candidates (heap s) (childrenByThreadId s)) - {rootId})).
     snd ((collectStep (heap s) (childrenByThreadId s) ^^ n) ([rootId], [rootId])) = [] \<and>
     (\<forall>m < n. snd ((collectStep (heap s) (childrenByThreadId s) ^^ m) ([rootId], [rootId])) \<noteq> []) \<and>
     collectThreadIds s rootId = fst ((collectStep (heap s) (childrenByThreadId s) ^^ n) ([rootId], [rootId])) \<and>
     distinct (collectThreadIds s rootId)"
proof -
  have "variant (heap s) (childrenByThreadId s) ([rootId], [rootId]) =
      Suc (card (set (candidates (heap s) (childrenByThreadId s)) - {rootId}))"
    by (simp add: variant_def)
  then show ?thesis
    using collectLoop_funpow [of "heap s" "childrenByThreadId s" "([rootId], [rootId])"]
      distinct_collectThreadIds [of s rootId]
    by (simp add: collectThreadIds_def)
qed

text \<open>
  An instance with a cycle: \<open>a\<close> and \<open>b\<close> reply to each other; from \<open>a\<close> the loop
  ends within two turns and returns \<open>a\<close> and \<open>b\<close>.
\<close>

theorem collectThreadIds_terminates_witness:
  "(\<exists>n \<le> 2.
     snd ((collectStep (heap loopStore) (childrenByThreadId loopStore) ^^ n) ([''a''], [''a''])) = [] \<and>
     (\<forall>m < n. snd ((collectStep (heap loopStore) (childrenByThreadId loopStore) ^^ m) ([''a''], [''a''])) \<noteq> []) \<and>
     collectThreadIds loopStore ''a'' =
       fst ((collectStep (heap loopStore) (childrenByThreadId loopStore) ^^ n) ([''a''], [''a''])) \<and>
     distinct (collectThreadIds loopStore ''a'')) \<and>
   (''a'', ''a'') \<in> (replyEdges (heap loopStore) (childrenByThreadId loopStore))\<^sup>+ \<and>
   collectThreadIds loopStore ''a'' = [''a'', ''b'']"
proof -
  have b: "Suc (card (set (candidates (heap loopStore) (childrenByThreadId loopStore)) - {''a''})) = 2"
    by code_simp
  have t: "\<exists>n \<le> 2.
     snd ((collectStep (heap loopStore) (childrenByThreadId loopStore) ^^ n) ([''a''], [''a''])) = [] \<and>
     (\<forall>m < n. snd ((collectStep (heap loopStore) (childrenByThreadId loopStore) ^^ m) ([''a''], [''a''])) \<noteq> []) \<and>
     collectThreadIds loopStore ''a'' =
       fst ((collectStep (heap loopStore) (childrenByThreadId loopStore) ^^ n) ([''a''], [''a''])) \<and>
     distinct (collectThreadIds loopStore ''a'')"
    using collectThreadIds_terminates [of loopStore "''a''"] unfolding b .
  have v: "collectThreadIds loopStore ''a'' = [''a'', ''b'']" by code_simp
  show ?thesis by (intro conjI t loopStore_cyclic v)
qed

subsection \<open>C7\<close>

text \<open>
  C7. In a store whose indices are up to date and that holds no post with the given id,
  \<open>getPostById\<close> returns the absent value, \<open>updatePost\<close> returns the store as it was, and
  \<open>deletePost\<close> leaves the primary collection and every field of every post (the counters
  too) as they were; indeed the whole store. No call has a failing branch.
\<close>

theorem missing_id_is_no_op:
  assumes "consistent s" and "postId \<notin> (\<lambda>p. id_post (heap s p)) ` set (posts s)"
  shows "getPostById s postId = None \<and> updatePost s postId updates now = s \<and>
         posts (deletePost s postId) = posts s \<and> heap (deletePost s postId) = heap s \<and>
         deletePost s postId = s"
proof -
  have n: "map_of (postsById s) postId = None"
    using assms by (simp add: consistent_fields(1) map_of_buildById_None)
  have g: "getPostById s postId = None" using n by (simp add: getPostById_def)
  have u: "updatePost s postId updates now = s" using n by (simp add: updatePost_def)
  have f: "filter (\<lambda>p. id_post (heap s p) \<noteq> postId) (posts s) = posts s"
    using assms(2) by (rule filter_other_ids)
  have "deletePost s postId = updatePostsById s"
    using n f by (simp add: deletePost_def threadIdOf_def quoteIdOf_def resolve_def truthy_def modify_def)
  then have d: "deletePost s postId = s" using assms(1) by (simp add: consistent_def)
  show ?thesis using g u d by simp
qed

text \<open>An instance: no post of the example thread has the id \<open>x\<close>.\<close>

theorem missing_id_is_no_op_witness:
  "consistent familyStore \<and> ''x'' \<notin> (\<lambda>p. id_post (heap familyStore p)) ` set (posts familyStore) \<and>
   getPostById familyStore ''x'' = None \<and> updatePost familyStore ''x'' moveUnderO 9 = familyStore \<and>
   posts (deletePost familyStore ''x'') = posts familyStore \<and>
   heap (deletePost familyStore ''x'') = heap familyStore \<and>
   deletePost familyStore ''x'' = familyStore"
proof -
  have m: "''x'' \<notin> (\<lambda>p. id_post (heap familyStore p)) ` set (posts familyStore)"
    by code_simp
  show ?thesis
    using missing_id_is_no_op [OF consistent_familyStore m, of moveUnderO 9] consistent_familyStore m
    by (intro conjI) simp_all
qed

subsection \<open>C8\<close>

text \<open>
  As stated, the property fails in a store that holds two posts of one id: \<open>updatePost\<close>
  of that id writes the post the index returns, the older one, so for \<open>R\<close> the newer
  post a post other than \<open>R\<close> gets the new \<open>threadId\<close>, and \<open>R\<close> itself is not touched.
\<close>

theorem updatePost_frame_counterexample:
  "consistent doubled \<and> 5 \<in> set (posts doubled) \<and> 1 \<in> set (posts doubled) \<and>
   id_post (heap doubled 5) = ''a'' \<and> id_post (heap doubled 1) = ''a'' \<and>
   threadId (heap doubled 1) = Some ''z'' \<and>
   threadId (heap (updatePost doubled (id_post (heap doubled 5)) moveUnderO 9) 1) = Some ''o'' \<and>
   heap (updatePost doubled (id_post (heap doubled 5)) moveUnderO 9) 5 = heap doubled 5"
proof -
  have e: "5 \<in> set (posts doubled)" "1 \<in> set (posts doubled)"
    "id_post (heap doubled 5) = ''a''" "id_post (heap doubled 1) = ''a''"
    "threadId (heap doubled 1) = Some ''z''"
    "threadId (heap (updatePost doubled (id_post (heap doubled 5)) moveUnderO 9) 1) = Some ''o''"
    by code_simp+
  have g: "getPostById doubled (id_post (heap doubled 5)) = Some 1" by code_simp
  have f: "heap (updatePost doubled (id_post (heap doubled 5)) moveUnderO 9) 5 = heap doubled 5"
    unfolding updatePost_writes_indexed(1) [OF g] by simp
  show ?thesis by (intro conjI consistent_doubled e f)
qed

text \<open>
  C8 (amended). In a store with unique ids, \<open>updatePost(R.id, fields)\<close> on a post \<open>R\<close> of
  the primary collection changes no field of any other object, whatever the fields are (a
  new \<open>threadId\<close> or \<open>quoteId\<close> included): the counters of the old and of the new parent
  and quote target stay as they were. \<open>R\<close> gets the fields and the reading of the clock,
  and the primary collection is the same.
\<close>

theorem updatePost_frame:
  assumes "consistent s" and "uniqueIds (heap s) (posts s)" and "R \<in> set (posts s)"
  shows "(\<forall>r'. r' \<noteq> R \<longrightarrow>
            heap (updatePost s (id_post (heap s R)) updates now) r' = heap s r') \<and>
         heap (updatePost s (id_post (heap s R)) updates now) R =
           (assign (heap s R) updates)\<lparr>updated := now\<rparr> \<and>
         posts (updatePost s (id_post (heap s R)) updates now) = posts s"
proof -
  have g: "getPostById s (id_post (heap s R)) = Some R"
    using assms by (rule getPostById_unique)
  show ?thesis
    unfolding updatePost_writes_indexed [OF g] by simp
qed

text \<open>
  An instance, the scenario of the claim: \<open>r\<close> is added under \<open>p\<close>, whose \<open>replyCount\<close>
  becomes 1; moving \<open>r\<close> under \<open>o\<close> leaves it at 1 and the \<open>replyCount\<close> of \<open>o\<close> as it was.
\<close>

theorem updatePost_frame_witness:
  "consistent replied \<and> uniqueIds (heap replied) (posts replied) \<and> 2 \<in> set (posts replied) \<and>
   id_post (heap replied 2) = ''r'' \<and>
   replyCount (heap replied 0) = Some 1 \<and>
   replyCount (heap (updatePost replied ''r'' moveUnderO 9) 0) = Some 1 \<and>
   replyCount (heap (updatePost replied ''r'' moveUnderO 9) 1) = replyCount (heap replied 1) \<and>
   heap (updatePost replied ''r'' moveUnderO 9) 0 = heap replied 0 \<and>
   heap (updatePost replied ''r'' moveUnderO 9) 1 = heap replied 1 \<and>
   threadId (heap (updatePost replied ''r'' moveUnderO 9) 2) = Some ''o''"
proof -
  have u: "uniqueIds (heap replied) (posts replied)" by code_simp
  have m: "2 \<in> set (posts replied)" by code_simp
  have i: "id_post (heap replied 2) = ''r''" by code_simp
  have p: "replyCount (heap replied 0) = Some 1" by code_simp
  have t: "threadId (heap (updatePost replied ''r'' moveUnderO 9) 2) = Some ''o''" by code_simp
  note f = updatePost_frame [OF consistent_replied u m, of moveUnderO 9, unfolded i]
  have a: "heap (updatePost replied ''r'' moveUnderO 9) 0 = heap replied 0"
    using f [THEN conjunct1, THEN spec, of 0] by simp
  have b: "heap (updatePost replied ''r'' moveUnderO 9) 1 = heap replied 1"
    using f [THEN conjunct1, THEN spec, of 1] by simp
  show ?thesis
    using a b by (intro conjI consistent_replied u m i p t) (simp_all add: p)
qed

subsection \<open>C9\<close>

text \<open>
  C9. When \<open>addPost\<close> receives a post whose id a post of the store already has, the new post
  goes to the front of the primary collection and \<open>getPostById\<close> of that id still returns
  the post it returned before the call, which is a post of the old collection and so not
  the new object.
\<close>

theorem addPost_duplicate_id:
  assumes "consistent s" and "p0 \<in> set (posts s)" and "id_post (heap s p0) = id_post (heap s post)"
  shows "\<exists>old \<in> set (posts s).
           getPostById s (id_post (heap s post)) = Some old \<and>
           getPostById (addPost s post now1 now2) (id_post (heap s post)) = Some old \<and>
           (post \<notin> set (posts s) \<longrightarrow>
              getPostById (addPost s post now1 now2) (id_post (heap s post)) \<noteq> Some post) \<and>
           posts (addPost s post now1 now2) = post # posts s"
proof -
  let ?k = "id_post (heap s post)"
  let ?s' = "addPost s post now1 now2"
  let ?fs = "filter (\<lambda>p. id_post (heap s p) = ?k) (posts s)"
  have ne: "?fs \<noteq> []" using assms(2,3) by (auto simp: filter_empty_conv)
  have old: "getPostById s ?k = Some (last ?fs)"
    using ne by (simp add: getPostById_def consistent_fields(1) [OF assms(1)] map_of_buildById)
  have mem: "last ?fs \<in> set (posts s)"
    using last_in_set [OF ne] by simp
  have ps: "posts ?s' = post # posts s" by (simp add: addPost_def Let_def)
  have ids: "\<And>p. id_post (heap ?s' p) = id_post (heap s p)"
    using id_post_perform [of s "AddPost post now1 now2"] by simp
  have "postsById ?s' = buildById (heap ?s') (posts ?s')"
    by (simp add: addPost_def Let_def)
  also have "\<dots> = buildById (heap s) (post # posts s)"
    unfolding ps using ids by (rule buildById_cong)
  finally have "getPostById ?s' ?k = Some (last ?fs)"
    using ne by (simp add: getPostById_def map_of_buildById)
  then show ?thesis using old mem ps by auto
qed

text \<open>An instance: a second post with the id \<open>a\<close> is added to the example thread.\<close>

theorem addPost_duplicate_id_witness:
  "consistent familyStore \<and> 1 \<in> set (posts familyStore) \<and>
   id_post (heap familyStore 1) = id_post (heap familyStore 5) \<and>
   getPostById familyStore ''a'' = Some 1 \<and>
   getPostById (addPost familyStore 5 7 8) ''a'' = Some 1 \<and>
   posts (addPost familyStore 5 7 8) = 5 # posts familyStore"
proof -
  have m: "1 \<in> set (posts familyStore)" by code_simp
  have i: "id_post (heap familyStore 1) = id_post (heap familyStore 5)" by code_simp
  have k: "id_post (heap familyStore 5) = ''a''" by code_simp
  have o: "getPostById familyStore ''a'' = Some 1" by code_simp
  show ?thesis
    using addPost_duplicate_id [OF consistent_familyStore m i, of 7 8] consistent_familyStore m i o
    unfolding k by auto
qed

subsection \<open>C10\<close>

text \<open>
  C10. \<open>deleteThread(rootId)\<close> where no post has the id \<open>rootId\<close> removes every post whose
  id is reachable from \<open>rootId\<close> along the index of replies (no post but these), and
  changes no \<open>replyCount\<close> at all. With posts whose \<open>threadId\<close> is \<open>rootId\<close> the call is
  therefore not a no-op.
\<close>

theorem deleteThread_absent_root:
  assumes "getPostById s rootId = None"
  shows "posts (deleteThread s rootId) =
           filter (\<lambda>p. (rootId, id_post (heap s p)) \<notin> (replyEdges (heap s) (childrenByThreadId s))\<^sup>*) (posts s) \<and>
         (\<forall>r. replyCount (heap (deleteThread s rootId) r) = replyCount (heap s r))"
proof -
  have p: "posts (deleteThread s rootId) =
      filter (\<lambda>p. id_post (heap s p) \<notin> set (collectThreadIds s rootId)) (posts s)"
    using posts_perform [of s "DeleteThread rootId"] by simp
  have r: "replyCount (heap (deleteThread s rootId) r) = replyCount (heap s r)" for r
    using assms
    by (simp add: deleteThread_def Let_def getPostById_def replyCount_fold_unquote threadIdOf_def
        resolve_def truthy_def modify_def)
  show ?thesis using p r by (simp add: set_collectThreadIds)
qed

text \<open>
  An instance: once \<open>a\<close> is deleted from the example thread, \<open>b\<close> still replies to it;
  \<open>deleteThread('a')\<close> then removes \<open>b\<close>.
\<close>

theorem deleteThread_absent_root_witness:
  "getPostById (deletePost familyStore ''a'') ''a'' = None \<and>
   posts (deletePost familyStore ''a'') = [2, 0, 3] \<and>
   posts (deleteThread (deletePost familyStore ''a'') ''a'') = [0, 3] \<and>
   posts (deleteThread (deletePost familyStore ''a'') ''a'') =
     filter (\<lambda>p. (''a'', id_post (heap (deletePost familyStore ''a'') p))
                 \<notin> (replyEdges (heap (deletePost familyStore ''a''))
                       (childrenByThreadId (deletePost familyStore ''a'')))\<^sup>*)
       (posts (deletePost familyStore ''a'')) \<and>
   replyCount (heap (deleteThread (deletePost familyStore ''a'') ''a'') 0) =
     replyCount (heap (deletePost familyStore ''a'') 0)"
proof -
  have n: "getPostById (deletePost familyStore ''a'') ''a'' = None" by code_simp
  have p: "posts (deletePost familyStore ''a'') = [2, 0, 3]" by code_simp
  have d: "posts (deleteThread (deletePost familyStore ''a'') ''a'') = [0, 3]" by code_simp
  show ?thesis
    using deleteThread_absent_root [OF n] n p d by simp
qed

end
